theory Spec2Isabelle
  imports Main "HOL-Library.Sublist"
begin

section \<open>Characters and strings\<close>

text \<open>
  Template sources, expressions and rendered output are JavaScript strings. They are
  modelled as \<open>string\<close> (lists of 8-bit characters); every character class below is
  the restriction of the corresponding ECMAScript class to that range.
\<close>

definition isSpace :: "char \<Rightarrow> bool" where
  \<comment> \<open>The regular expression class \<open>\s\<close>, which is also what \<open>String.prototype.trim\<close> strips.\<close>
  "isSpace c = (c \<in> {CHR 0x09, CHR 0x0A, CHR 0x0B, CHR 0x0C, CHR 0x0D, CHR 0x20, CHR 0xA0})"

definition isLineTerm :: "char \<Rightarrow> bool" where
  "isLineTerm c = (c = CHR 0x0A \<or> c = CHR 0x0D)"

definition isDot :: "char \<Rightarrow> bool" where
  \<comment> \<open>The class \<open>.\<close> without the \<open>s\<close> flag: anything but a line terminator.\<close>
  "isDot c = (\<not> isLineTerm c)"

definition isAny :: "char \<Rightarrow> bool" where
  \<comment> \<open>The class \<open>[\s\S]\<close>, and \<open>.\<close> under the \<open>s\<close> flag.\<close>
  "isAny c = True"

definition isDigit :: "char \<Rightarrow> bool" where
  "isDigit c = (c \<in> set ''0123456789'')"

definition isAlpha :: "char \<Rightarrow> bool" where
  "isAlpha c = (c \<in> set ''abcdefghijklmnopqrstuvwxyzABCDEFGHIJKLMNOPQRSTUVWXYZ'')"

definition isWord :: "char \<Rightarrow> bool" where
  \<comment> \<open>The class \<open>\w\<close>.\<close>
  "isWord c = (isAlpha c \<or> isDigit c \<or> c = CHR ''_'')"

definition isIdentStart :: "char \<Rightarrow> bool" where
  \<comment> \<open>The class \<open>[A-Za-z_$]\<close>.\<close>
  "isIdentStart c = (isAlpha c \<or> c = CHR ''_'' \<or> c = CHR ''$'')"

definition isIdentChar :: "char \<Rightarrow> bool" where
  \<comment> \<open>The class \<open>[A-Za-z0-9_$]\<close>.\<close>
  "isIdentChar c = (isAlpha c \<or> isDigit c \<or> c = CHR ''_'' \<or> c = CHR ''$'')"

definition isQuote :: "char \<Rightarrow> bool" where
  \<comment> \<open>The class \<open>["']\<close>.\<close>
  "isQuote c = (c = CHR 0x22 \<or> c = CHR 0x27)"

definition trim :: "string \<Rightarrow> string" where
  "trim s = rev (dropWhile isSpace (rev (dropWhile isSpace s)))"

definition startsWith :: "string \<Rightarrow> string \<Rightarrow> bool" where
  "startsWith s p = (take (length p) s = p)"

fun joinWith :: "string \<Rightarrow> string list \<Rightarrow> string" where
  "joinWith sep [] = []"
| "joinWith sep [x] = x"
| "joinWith sep (x # y # ys) = x @ sep @ joinWith sep (y # ys)"

fun splitOn :: "char \<Rightarrow> string \<Rightarrow> string \<Rightarrow> string list" where
  \<comment> \<open>\<open>String.prototype.split\<close> with a one-character separator; the second argument is
      the piece read so far.\<close>
  "splitOn sep buf [] = [buf]"
| "splitOn sep buf (c # cs) =
     (if c = sep then buf # splitOn sep [] cs else splitOn sep (buf @ [c]) cs)"

fun replaceChar :: "char \<Rightarrow> string \<Rightarrow> string \<Rightarrow> string" where
  \<comment> \<open>\<open>s.replace(/c/g, r)\<close> for a single character \<open>c\<close>.\<close>
  "replaceChar c r [] = []"
| "replaceChar c r (x # xs) = (if x = c then r @ replaceChar c r xs else x # replaceChar c r xs)"

section \<open>Regular expressions\<close>

text \<open>
  The source matches tags and expressions with ECMAScript regular expressions. They are
  modelled by a backtracking matcher in continuation-passing style that tries the
  alternatives in the order the ECMAScript semantics prescribes: the left branch of an
  alternation first, more repetitions first for a greedy quantifier and fewer first for a
  lazy one. Quantifiers range over character classes, which is all the source uses.
  A matcher state is the position, the rest of the input and the captures so far.
\<close>

datatype re =
    Cls "char \<Rightarrow> bool"
  | Lit string
  | Seq re re
  | Alt re re
  | Star bool "char \<Rightarrow> bool"
  | Plus bool "char \<Rightarrow> bool"
  | Opt re
  | Grp nat re
  | Bol
  | Eol

type_synonym caps = "nat \<Rightarrow> string option"
type_synonym mstate = "nat \<times> string \<times> caps"

fun starG :: "(char \<Rightarrow> bool) \<Rightarrow> (mstate \<Rightarrow> mstate option) \<Rightarrow> nat \<Rightarrow> caps \<Rightarrow> string \<Rightarrow> mstate option" where
  "starG c k p cs [] = k (p, [], cs)"
| "starG c k p cs (x # xs) =
     (if c x
      then (case starG c k (Suc p) cs xs of Some r \<Rightarrow> Some r | None \<Rightarrow> k (p, x # xs, cs))
      else k (p, x # xs, cs))"

fun starL :: "(char \<Rightarrow> bool) \<Rightarrow> (mstate \<Rightarrow> mstate option) \<Rightarrow> nat \<Rightarrow> caps \<Rightarrow> string \<Rightarrow> mstate option" where
  "starL c k p cs [] = k (p, [], cs)"
| "starL c k p cs (x # xs) =
     (case k (p, x # xs, cs) of
        Some r \<Rightarrow> Some r
      | None \<Rightarrow> (if c x then starL c k (Suc p) cs xs else None))"

definition star :: "bool \<Rightarrow> (char \<Rightarrow> bool) \<Rightarrow> (mstate \<Rightarrow> mstate option) \<Rightarrow> mstate \<Rightarrow> mstate option" where
  "star greedy c k st =
     (case st of (p, s, cs) \<Rightarrow> if greedy then starG c k p cs s else starL c k p cs s)"

definition setCap :: "nat \<Rightarrow> mstate \<Rightarrow> mstate \<Rightarrow> mstate" where
  \<comment> \<open>Group \<open>i\<close> captures what was consumed between the two states.\<close>
  "setCap i st0 st1 =
     (case st0 of (p0, s0, cs0) \<Rightarrow> case st1 of (p1, s1, cs1) \<Rightarrow>
        (p1, s1, cs1(i \<mapsto> take (length s0 - length s1) s0)))"

primrec rmatch :: "re \<Rightarrow> (mstate \<Rightarrow> mstate option) \<Rightarrow> mstate \<Rightarrow> mstate option" where
  "rmatch (Cls c) k st =
     (case st of (p, s, cs) \<Rightarrow>
        (case s of [] \<Rightarrow> None | x # xs \<Rightarrow> if c x then k (Suc p, xs, cs) else None))"
| "rmatch (Lit l) k st =
     (case st of (p, s, cs) \<Rightarrow>
        if startsWith s l then k (p + length l, drop (length l) s, cs) else None)"
| "rmatch (Seq a b) k st = rmatch a (rmatch b k) st"
| "rmatch (Alt a b) k st = (case rmatch a k st of Some r \<Rightarrow> Some r | None \<Rightarrow> rmatch b k st)"
| "rmatch (Star g c) k st = star g c k st"
| "rmatch (Plus g c) k st =
     (case st of (p, s, cs) \<Rightarrow>
        (case s of [] \<Rightarrow> None | x # xs \<Rightarrow> if c x then star g c k (Suc p, xs, cs) else None))"
| "rmatch (Opt a) k st = (case rmatch a k st of Some r \<Rightarrow> Some r | None \<Rightarrow> k st)"
| "rmatch (Grp i a) k st = rmatch a (\<lambda>st'. k (setCap i st st')) st"
| "rmatch Bol k st = (if fst st = 0 then k st else None)"
| "rmatch Eol k st = (if fst (snd st) = [] then k st else None)"

fun searchFrom :: "re \<Rightarrow> nat \<Rightarrow> string \<Rightarrow> (nat \<times> mstate) option" where
  \<comment> \<open>The leftmost match at or after position \<open>p\<close>, where \<open>s\<close> is the input from \<open>p\<close> on:
      the start of the match and the final state.\<close>
  "searchFrom r p [] = map_option (Pair p) (rmatch r Some (p, [], Map.empty))"
| "searchFrom r p (x # xs) =
     (case rmatch r Some (p, x # xs, Map.empty) of
        Some st \<Rightarrow> Some (p, st)
      | None \<Rightarrow> searchFrom r (Suc p) xs)"

definition reExec :: "re \<Rightarrow> string \<Rightarrow> nat \<Rightarrow> (nat \<times> mstate) option" where
  \<comment> \<open>\<open>re.exec(s)\<close> with \<open>lastIndex = i\<close>.\<close>
  "reExec r s i = (if i \<le> length s then searchFrom r i (drop i s) else None)"

definition reMatch :: "re \<Rightarrow> string \<Rightarrow> caps option" where
  \<comment> \<open>\<open>s.match(re)\<close> for a regular expression without the \<open>g\<close> flag: the captures.\<close>
  "reMatch r s = map_option (\<lambda>(i, st). snd (snd st)) (searchFrom r 0 s)"

definition reTest :: "re \<Rightarrow> string \<Rightarrow> bool" where
  "reTest r s = (reMatch r s \<noteq> None)"

definition cap :: "caps \<Rightarrow> nat \<Rightarrow> string" where
  \<comment> \<open>A group that is known to have taken part in the match.\<close>
  "cap cs i = (case cs i of Some s \<Rightarrow> s | None \<Rightarrow> [])"

fun seqs :: "re list \<Rightarrow> re" where
  "seqs [] = Lit []"
| "seqs [r] = r"
| "seqs (r # rs) = Seq r (seqs rs)"

section \<open>Values\<close>

subsection \<open>Numbers\<close>

text \<open>
  A number is modelled as an exact decimal fraction \<open>m / 10 ^ e\<close>. This covers every
  numeric literal the expression language accepts; the rounding of IEEE doubles, the
  values NaN and Infinity, and the exponent notation JavaScript prints for very large and
  very small numbers are outside the model.
\<close>

datatype dec = Dec int nat

fun normDec :: "int \<Rightarrow> nat \<Rightarrow> dec" where
  "normDec m 0 = Dec m 0"
| "normDec m (Suc e) = (if m mod 10 = 0 then normDec (m div 10) e else Dec m (Suc e))"

definition digitChar :: "nat \<Rightarrow> char" where
  "digitChar n = ''0123456789'' ! (n mod 10)"

definition digitVal :: "char \<Rightarrow> nat" where
  "digitVal c = length (takeWhile (\<lambda>d. d \<noteq> c) ''0123456789'')"

definition natOfDigits :: "string \<Rightarrow> nat" where
  "natOfDigits s = foldl (\<lambda>n c. 10 * n + digitVal c) 0 s"

fun showNat :: "nat \<Rightarrow> string" where
  "showNat n = (if n < 10 then [digitChar n] else showNat (n div 10) @ [digitChar (n mod 10)])"

declare showNat.simps [simp del]

definition numberOfLit :: "string \<Rightarrow> dec" where
  \<comment> \<open>\<open>Number(s)\<close> for a string of the form \<open>-?\d+(\.\d+)?\<close>.\<close>
  "numberOfLit s =
     (let neg = startsWith s ''-'';
          body = (if neg then drop 1 s else s);
          ip = takeWhile isDigit body;
          fp = drop (Suc (length ip)) body;
          m = int (natOfDigits (ip @ fp))
      in normDec (if neg then - m else m) (length fp))"

definition showDec :: "dec \<Rightarrow> string" where
  \<comment> \<open>\<open>String(n)\<close> for a number.\<close>
  "showDec d =
     (case d of Dec m0 e0 \<Rightarrow>
        (case normDec m0 e0 of Dec m e \<Rightarrow>
           (let a = nat \<bar>m\<bar>;
                ip = showNat (a div 10 ^ e);
                fp = showNat (a mod 10 ^ e)
            in (if m < 0 then ''-'' else []) @ ip @
               (if e = 0 then [] else ''.'' @ replicate (e - length fp) CHR ''0'' @ fp))))"

definition decLess :: "dec \<Rightarrow> dec \<Rightarrow> bool" where
  "decLess a b = (case a of Dec m1 e1 \<Rightarrow> case b of Dec m2 e2 \<Rightarrow> m1 * 10 ^ e2 < m2 * 10 ^ e1)"

definition decEq :: "dec \<Rightarrow> dec \<Rightarrow> bool" where
  "decEq a b = (case a of Dec m1 e1 \<Rightarrow> case b of Dec m2 e2 \<Rightarrow> m1 * 10 ^ e2 = m2 * 10 ^ e1)"

definition decOfNat :: "nat \<Rightarrow> dec" where
  "decOfNat n = Dec (int n) 0"

subsection \<open>JavaScript values\<close>

text \<open>
  The values a template context can hold. \<open>VSafe\<close> is an instance of the class
  \<open>SafeString\<close>; \<open>VObj\<close> lists the own enumerable properties of a plain object in the
  order \<open>Object.entries\<close> enumerates them; \<open>VFun\<close> names a host function. An object
  used as a dictionary (the context, the filter registry, the block overrides) is a map
  of its own properties: members inherited from a prototype are outside the model.
\<close>

datatype jsval =
    VUndefined
  | VNull
  | VBool bool
  | VNum dec
  | VStr string
  | VSafe string
  | VArr "jsval list"
  | VObj "(string \<times> jsval) list"
  | VFun nat

type_synonym ctx = "string \<Rightarrow> jsval option"

text \<open>
  What the host functions of a context do: \<open>hcall h f c\<close> is the result of
  \<open>f.call(c)\<close>, \<open>None\<close> when the call throws; \<open>hsrc h f\<close> is \<open>String(f)\<close>.
\<close>

record host =
  hcall :: "nat \<Rightarrow> ctx \<Rightarrow> jsval option"
  hsrc :: "nat \<Rightarrow> string"

fun isNullish :: "jsval \<Rightarrow> bool" where
  \<comment> \<open>\<open>v == null\<close>\<close>
  "isNullish VUndefined = True"
| "isNullish VNull = True"
| "isNullish _ = False"

fun truthy :: "jsval \<Rightarrow> bool" where
  \<comment> \<open>\<open>!!v\<close>\<close>
  "truthy VUndefined = False"
| "truthy VNull = False"
| "truthy (VBool b) = b"
| "truthy (VNum d) = (\<not> decEq d (Dec 0 0))"
| "truthy (VStr s) = (s \<noteq> [])"
| "truthy _ = True"

fun isObjLike :: "jsval \<Rightarrow> bool" where
  \<comment> \<open>\<open>typeof v === "object" || typeof v === "function"\<close>, for a value that is not null.\<close>
  "isObjLike (VSafe s) = True"
| "isObjLike (VArr xs) = True"
| "isObjLike (VObj kvs) = True"
| "isObjLike (VFun f) = True"
| "isObjLike _ = False"

fun isStrOrNum :: "jsval \<Rightarrow> bool" where
  "isStrOrNum (VStr s) = True"
| "isStrOrNum (VNum d) = True"
| "isStrOrNum _ = False"

fun toStr :: "host \<Rightarrow> jsval \<Rightarrow> string" where
  \<comment> \<open>\<open>String(v)\<close>\<close>
  "toStr h VUndefined = ''undefined''"
| "toStr h VNull = ''null''"
| "toStr h (VBool b) = (if b then ''true'' else ''false'')"
| "toStr h (VNum d) = showDec d"
| "toStr h (VStr s) = s"
| "toStr h (VSafe s) = s"
| "toStr h (VArr xs) = joinWith '','' (map (\<lambda>x. if isNullish x then [] else toStr h x) xs)"
| "toStr h (VObj kvs) = ''[object Object]''"
| "toStr h (VFun f) = hsrc h f"

definition ctxGet :: "ctx \<Rightarrow> string \<Rightarrow> jsval" where
  \<comment> \<open>\<open>context[name]\<close>\<close>
  "ctxGet c n = (case c n of None \<Rightarrow> VUndefined | Some v \<Rightarrow> v)"

definition isArrayIndex :: "string \<Rightarrow> bool" where
  "isArrayIndex k = (k \<noteq> [] \<and> list_all isDigit k \<and> showNat (natOfDigits k) = k)"

fun getOwn :: "jsval \<Rightarrow> string \<Rightarrow> jsval" where
  \<comment> \<open>\<open>v[key]\<close> for an object or function \<open>v\<close>.\<close>
  "getOwn (VObj kvs) k = (case map_of kvs k of None \<Rightarrow> VUndefined | Some v \<Rightarrow> v)"
| "getOwn (VArr xs) k =
     (if k = ''length'' then VNum (decOfNat (length xs))
      else if isArrayIndex k \<and> natOfDigits k < length xs then xs ! natOfDigits k
      else VUndefined)"
| "getOwn (VSafe s) k = (if k = ''value'' then VStr s else VUndefined)"
| "getOwn _ k = VUndefined"

section \<open>Filters\<close>

definition escapeHtml :: "string \<Rightarrow> string" where
  \<comment> \<open>Five global replacements, in the order of the source.\<close>
  "escapeHtml s =
     replaceChar (CHR 0x27) ''&#39;''
       (replaceChar (CHR 0x22) ''&quot;''
          (replaceChar CHR ''>'' ''&gt;''
             (replaceChar CHR ''<'' ''&lt;''
                (replaceChar CHR ''&'' ''&amp;'' s))))"

definition lowerChar :: "char \<Rightarrow> char" where
  "lowerChar c =
     (case map_of (zip ''ABCDEFGHIJKLMNOPQRSTUVWXYZ'' ''abcdefghijklmnopqrstuvwxyz'') c of
        Some l \<Rightarrow> l | None \<Rightarrow> c)"

definition upperChar :: "char \<Rightarrow> char" where
  "upperChar c =
     (case map_of (zip ''abcdefghijklmnopqrstuvwxyz'' ''ABCDEFGHIJKLMNOPQRSTUVWXYZ'') c of
        Some u \<Rightarrow> u | None \<Rightarrow> c)"

fun escapeClosingScript :: "string \<Rightarrow> string" where
  \<comment> \<open>\<open>json.replace(/<\/script/gi, "<\\/script")\<close>\<close>
  "escapeClosingScript [] = []"
| "escapeClosingScript (x # xs) =
     (if map lowerChar (take 8 (x # xs)) = ''</script''
      then ''<'' @ [CHR 0x5C] @ ''/script'' @ escapeClosingScript (drop 7 xs)
      else x # escapeClosingScript xs)"

definition hexDigit :: "nat \<Rightarrow> char" where
  "hexDigit n = ''0123456789abcdef'' ! (n mod 16)"

definition jsonEscapeChar :: "char \<Rightarrow> string" where
  "jsonEscapeChar c =
     (if c = CHR 0x22 then [CHR 0x5C, CHR 0x22]
      else if c = CHR 0x5C then [CHR 0x5C, CHR 0x5C]
      else if c = CHR 0x08 then [CHR 0x5C, CHR ''b'']
      else if c = CHR 0x0C then [CHR 0x5C, CHR ''f'']
      else if c = CHR 0x0A then [CHR 0x5C, CHR ''n'']
      else if c = CHR 0x0D then [CHR 0x5C, CHR ''r'']
      else if c = CHR 0x09 then [CHR 0x5C, CHR ''t'']
      else if (of_char c :: nat) < 32
      then [CHR 0x5C] @ ''u00'' @ [hexDigit (of_char c div 16), hexDigit (of_char c)]
      else [c])"

definition jsonQuote :: "string \<Rightarrow> string" where
  "jsonQuote s = [CHR 0x22] @ concat (map jsonEscapeChar s) @ [CHR 0x22]"

fun jsonStringify :: "jsval \<Rightarrow> string option" where
  \<comment> \<open>\<open>JSON.stringify(v)\<close>; \<open>None\<close> is the result \<open>undefined\<close>.\<close>
  "jsonStringify VUndefined = None"
| "jsonStringify (VFun f) = None"
| "jsonStringify VNull = Some ''null''"
| "jsonStringify (VBool b) = Some (if b then ''true'' else ''false'')"
| "jsonStringify (VNum d) = Some (showDec d)"
| "jsonStringify (VStr s) = Some (jsonQuote s)"
| "jsonStringify (VSafe s) = Some (''{'' @ jsonQuote ''value'' @ '':'' @ jsonQuote s @ ''}'')"
| "jsonStringify (VArr xs) =
     Some (''['' @ joinWith '',''
        (map (\<lambda>x. case jsonStringify x of None \<Rightarrow> ''null'' | Some t \<Rightarrow> t) xs) @ '']'')"
| "jsonStringify (VObj kvs) =
     Some (''{'' @ joinWith '',''
        (concat (map (\<lambda>kv. case jsonStringify (snd kv) of
                                None \<Rightarrow> []
                              | Some t \<Rightarrow> [jsonQuote (fst kv) @ '':'' @ t]) kvs)) @ ''}'')"

definition filterUpper :: "host \<Rightarrow> jsval \<Rightarrow> jsval \<Rightarrow> jsval" where
  "filterUpper h v arg = (case v of VStr s \<Rightarrow> VStr (map upperChar s) | _ \<Rightarrow> v)"

definition filterLower :: "host \<Rightarrow> jsval \<Rightarrow> jsval \<Rightarrow> jsval" where
  "filterLower h v arg = (case v of VStr s \<Rightarrow> VStr (map lowerChar s) | _ \<Rightarrow> v)"

definition filterSafe :: "host \<Rightarrow> jsval \<Rightarrow> jsval \<Rightarrow> jsval" where
  "filterSafe h v arg = (if isNullish v then VSafe [] else VSafe (toStr h v))"

definition filterEscapejs :: "host \<Rightarrow> jsval \<Rightarrow> jsval \<Rightarrow> jsval" where
  "filterEscapejs h v arg =
     (if isNullish v then VStr [CHR 0x22, CHR 0x22]
      else VStr ([CHR 0x22] @
        escapeClosingScript
          (replaceChar (CHR 0x27) [CHR 0x5C, CHR 0x27]
             (replaceChar (CHR 0x22) [CHR 0x5C, CHR 0x22]
                (replaceChar (CHR 0x5C) [CHR 0x5C, CHR 0x5C] (toStr h v)))) @ [CHR 0x22]))"

definition filterRawJson :: "host \<Rightarrow> jsval \<Rightarrow> jsval \<Rightarrow> jsval" where
  \<comment> \<open>\<open>escapeClosingScript(undefined)\<close> throws, which the \<open>catch\<close> turns into \<open>null\<close>.\<close>
  "filterRawJson h v arg =
     (case jsonStringify v of
        Some j \<Rightarrow> VSafe (escapeClosingScript j)
      | None \<Rightarrow> VSafe ''null'')"

definition filterJsonScript :: "host \<Rightarrow> jsval \<Rightarrow> jsval \<Rightarrow> jsval" where
  "filterJsonScript h v arg =
     (let ident = (case arg of VStr a \<Rightarrow> a
                   | _ \<Rightarrow> if isNullish arg then ''__data__'' else toStr h arg);
          payload = (case jsonStringify v of
                       Some j \<Rightarrow> escapeClosingScript j
                     | None \<Rightarrow> ''null'')
      in VSafe (''<script id='' @ [CHR 0x22] @ escapeHtml ident @ [CHR 0x22] @
                '' type='' @ [CHR 0x22] @ ''application/json'' @ [CHR 0x22] @ ''>'' @
                payload @ ''</script>''))"

definition filters :: "string \<Rightarrow> (host \<Rightarrow> jsval \<Rightarrow> jsval \<Rightarrow> jsval) option" where
  \<comment> \<open>The filter registry: \<open>filters[name]\<close>.\<close>
  "filters = map_of
     [(''upper'', filterUpper),
      (''lower'', filterLower),
      (''safe'', filterSafe),
      (''escapejs'', filterEscapejs),
      (''raw_json'', filterRawJson),
      (''raw_json_escaped'', filterRawJson),
      (''json_script'', filterJsonScript)]"

section \<open>Lexer\<close>

record tokenPos =
  line :: nat
  col :: nat
  index :: nat

datatype tokType = TText | TVar | TTag | TComment

record token =
  ttype :: tokType
  content :: string
  pos :: tokenPos

definition countLineCol :: "string \<Rightarrow> nat \<Rightarrow> tokenPos" where
  "countLineCol s i =
     (case foldl (\<lambda>(l, c) ch. if ch = CHR 0x0A then (Suc l, 1) else (l, Suc c)) (1, 1) (take i s) of
        (l, c) \<Rightarrow> \<lparr> line = l, col = c, index = i \<rparr>)"

definition lexRe :: re where
  \<comment> \<open>\<open>/({{\s*([\s\S]*?)\s*}})|({%\s*([\s\S]*?)\s*%})|({#([\s\S]*?)#})/g\<close>\<close>
  "lexRe =
     Alt (Grp 1 (seqs [Lit ''{{'', Star True isSpace, Grp 2 (Star False isAny),
                       Star True isSpace, Lit ''}}'']))
    (Alt (Grp 3 (seqs [Lit ''{%'', Star True isSpace, Grp 4 (Star False isAny),
                       Star True isSpace, Lit ''%}'']))
         (Grp 5 (seqs [Lit ''{#'', Grp 6 (Star False isAny), Lit ''#}''])))"

definition mkToken :: "tokType \<Rightarrow> string \<Rightarrow> tokenPos \<Rightarrow> token" where
  "mkToken t c p = \<lparr> ttype = t, content = c, pos = p \<rparr>"

definition lexMatchToken :: "string \<Rightarrow> nat \<Rightarrow> caps \<Rightarrow> token list" where
  \<comment> \<open>The token of one match that starts at \<open>i\<close>.\<close>
  "lexMatchToken template i cs =
     (if cap cs 1 \<noteq> [] then [mkToken TVar (trim (cap cs 2)) (countLineCol template i)]
      else if cap cs 3 \<noteq> [] then [mkToken TTag (trim (cap cs 4)) (countLineCol template i)]
      else if cap cs 5 \<noteq> [] then [mkToken TComment (cap cs 6) (countLineCol template i)]
      else [])"

definition lexText :: "string \<Rightarrow> nat \<Rightarrow> nat \<Rightarrow> token list" where
  \<comment> \<open>The text between \<open>lastIndex\<close> and the start \<open>i\<close> of the next match.\<close>
  "lexText template lastIndex i =
     (if lastIndex < i
      then [mkToken TText (take (i - lastIndex) (drop lastIndex template))
              (countLineCol template lastIndex)]
      else [])"

text \<open>
  The lexer loop terminates because every match of the token pattern consumes at least
  its delimiters. \<open>minLen r\<close> is a lower bound on what a match of \<open>r\<close> consumes.
\<close>

fun minLen :: "re \<Rightarrow> nat" where
  "minLen (Cls c) = 1"
| "minLen (Lit l) = length l"
| "minLen (Seq a b) = minLen a + minLen b"
| "minLen (Alt a b) = min (minLen a) (minLen b)"
| "minLen (Star g c) = 0"
| "minLen (Plus g c) = 1"
| "minLen (Opt a) = 0"
| "minLen (Grp i a) = minLen a"
| "minLen Bol = 0"
| "minLen Eol = 0"

lemma reachI:
  "k (p', s', cs') = Some res \<Longrightarrow> p' + length s' = p + length s \<Longrightarrow> length s' + n \<le> length s \<Longrightarrow>
   \<exists>p' s' cs'. k (p', s', cs') = Some res \<and> p' + length s' = p + length s \<and> length s' + n \<le> length s"
  by blast

lemma starG_progress:
  "starG c k p cs s = Some res \<Longrightarrow>
   \<exists>p' s' cs'. k (p', s', cs') = Some res \<and> p' + length s' = p + length s \<and> length s' \<le> length s"
proof (induction s arbitrary: p)
  case Nil
  then show ?case by auto
next
  case (Cons x xs)
  show ?case
  proof (cases "c x \<and> starG c k (Suc p) cs xs \<noteq> None")
    case True
    with Cons.prems have "starG c k (Suc p) cs xs = Some res" by (auto split: option.splits)
    from Cons.IH[OF this] show ?thesis by fastforce
  next
    case False
    with Cons.prems have "k (p, x # xs, cs) = Some res" by (auto split: option.splits if_splits)
    then show ?thesis by blast
  qed
qed

lemma starL_progress:
  "starL c k p cs s = Some res \<Longrightarrow>
   \<exists>p' s' cs'. k (p', s', cs') = Some res \<and> p' + length s' = p + length s \<and> length s' \<le> length s"
proof (induction s arbitrary: p)
  case Nil
  then show ?case by auto
next
  case (Cons x xs)
  show ?case
  proof (cases "k (p, x # xs, cs)")
    case (Some a)
    with Cons.prems have "k (p, x # xs, cs) = Some res" by simp
    then show ?thesis by blast
  next
    case None
    with Cons.prems have "starL c k (Suc p) cs xs = Some res" by (auto split: if_splits)
    from Cons.IH[OF this] show ?thesis by fastforce
  qed
qed

lemma star_progress:
  "star g c k (p, s, cs) = Some res \<Longrightarrow>
   \<exists>p' s' cs'. k (p', s', cs') = Some res \<and> p' + length s' = p + length s \<and> length s' \<le> length s"
  unfolding star_def using starG_progress starL_progress by (auto split: if_splits)

lemma rmatch_progress:
  "rmatch r k (p, s, cs) = Some res \<Longrightarrow>
   \<exists>p' s' cs'. k (p', s', cs') = Some res \<and> p' + length s' = p + length s
      \<and> length s' + minLen r \<le> length s"
proof (induction r arbitrary: k p s cs res)
  case (Cls c)
  then obtain x xs where "s = x # xs" "k (Suc p, xs, cs) = Some res"
    by (auto split: list.splits if_splits)
  then show ?case by (intro exI[of _ "Suc p"] exI[of _ xs] exI[of _ cs]) simp
next
  case (Lit l)
  then have t: "take (length l) s = l" and k: "k (p + length l, drop (length l) s, cs) = Some res"
    by (auto simp: startsWith_def split: if_splits)
  have "length (take (length l) s) \<le> length s" by simp
  with t have "length l \<le> length s" by simp
  with k show ?case
    by (intro exI[of _ "p + length l"] exI[of _ "drop (length l) s"] exI[of _ cs]) auto
next
  case (Seq a b)
  from Seq.prems have "rmatch a (rmatch b k) (p, s, cs) = Some res" by simp
  from Seq.IH(1)[OF this] obtain p1 s1 cs1 where
    1: "rmatch b k (p1, s1, cs1) = Some res" "p1 + length s1 = p + length s"
       "length s1 + minLen a \<le> length s" by blast
  from Seq.IH(2)[OF 1(1)] obtain p2 s2 cs2 where
    2: "k (p2, s2, cs2) = Some res" "p2 + length s2 = p1 + length s1"
       "length s2 + minLen b \<le> length s1" by blast
  from 1 2 show ?case by (intro exI[of _ p2] exI[of _ s2] exI[of _ cs2]) auto
next
  case (Alt a b)
  show ?case
  proof (cases "rmatch a k (p, s, cs)")
    case None
    with Alt.prems have "rmatch b k (p, s, cs) = Some res" by simp
    from Alt.IH(2)[OF this] show ?thesis by fastforce
  next
    case (Some x)
    with Alt.prems have "rmatch a k (p, s, cs) = Some res" by simp
    from Alt.IH(1)[OF this] show ?thesis by fastforce
  qed
next
  case (Star g c)
  then show ?case using star_progress[of g c k p s cs res] by simp
next
  case (Plus g c)
  then obtain x xs where s: "s = x # xs" and st: "star g c k (Suc p, xs, cs) = Some res"
    by (auto split: list.splits if_splits)
  from star_progress[OF st] show ?case using s by fastforce
next
  case (Opt a)
  show ?case
  proof (cases "rmatch a k (p, s, cs)")
    case None
    with Opt.prems show ?thesis by auto
  next
    case (Some x)
    with Opt.prems have "rmatch a k (p, s, cs) = Some res" by simp
    from Opt.IH[OF this] show ?thesis by fastforce
  qed
next
  case (Grp i a)
  from Grp.prems have "rmatch a (\<lambda>st'. k (setCap i (p, s, cs) st')) (p, s, cs) = Some res" by simp
  from Grp.IH[OF this] obtain p' s' cs' where
    g: "k (setCap i (p, s, cs) (p', s', cs')) = Some res" "p' + length s' = p + length s"
       "length s' + minLen a \<le> length s" by blast
  have "setCap i (p, s, cs) (p', s', cs') = (p', s', cs'(i \<mapsto> take (length s - length s') s))"
    by (simp add: setCap_def)
  with g show ?case by (intro exI[of _ p'] exI[of _ s']) auto
next
  case Bol
  then have "k (p, s, cs) = Some res" by (simp split: if_splits)
  then show ?case by (rule reachI) simp_all
next
  case Eol
  then have "k (p, s, cs) = Some res" by (simp split: if_splits)
  then show ?case by (rule reachI) simp_all
qed

lemma searchFrom_bounds:
  "searchFrom r p s = Some (i, (e, rest, cs)) \<Longrightarrow>
   p \<le> i \<and> e + length rest = p + length s \<and> i + minLen r \<le> e"
proof (induction s arbitrary: p)
  case Nil
  then have m: "rmatch r Some (p, [], Map.empty) = Some (e, rest, cs)" and i: "i = p"
    by auto
  from rmatch_progress[OF m] obtain p' s' cs' where
    "(p', s', cs') = (e, rest, cs)" "p' + length s' = p + length ([]::string)"
    "length s' + minLen r \<le> length ([]::string)" by auto
  with i show ?case by auto
next
  case (Cons x xs)
  show ?case
  proof (cases "rmatch r Some (p, x # xs, Map.empty)")
    case None
    with Cons.prems have "searchFrom r (Suc p) xs = Some (i, (e, rest, cs))" by simp
    from Cons.IH[OF this] show ?thesis by auto
  next
    case (Some st)
    with Cons.prems have i: "i = p" and m: "rmatch r Some (p, x # xs, Map.empty) = Some (e, rest, cs)"
      by auto
    from rmatch_progress[OF m] obtain p' s' cs' where
      "(p', s', cs') = (e, rest, cs)" "p' + length s' = p + length (x # xs)"
      "length s' + minLen r \<le> length (x # xs)" by auto
    with i show ?thesis by auto
  qed
qed

lemma minLen_lexRe: "minLen lexRe = 4"
  by (simp add: lexRe_def)

lemma reExec_lexRe_bounds:
  assumes "reExec lexRe t li = Some (i, (e, rest, cs))"
  shows "li < e \<and> e \<le> length t"
proof -
  from assms have li: "li \<le> length t" and s: "searchFrom lexRe li (drop li t) = Some (i, (e, rest, cs))"
    by (auto simp: reExec_def split: if_splits)
  from searchFrom_bounds[OF s] li show ?thesis by (auto simp: minLen_lexRe)
qed

text \<open>
  The loop of \<open>lex\<close>: \<open>re.exec\<close> from \<open>lastIndex\<close>, the text before the match, the
  token of the match, and on from the end of the match; the text after the last match.
\<close>

function lexLoop :: "string \<Rightarrow> nat \<Rightarrow> token list" where
  "lexLoop template lastIndex =
     (case reExec lexRe template lastIndex of
        None \<Rightarrow>
          (if lastIndex < length template
           then [mkToken TText (drop lastIndex template) (countLineCol template lastIndex)]
           else [])
      | Some (i, e, rest, cs) \<Rightarrow>
          lexText template lastIndex i @ lexMatchToken template i cs @ lexLoop template e)"
  by pat_completeness auto
termination
  by (relation "measure (\<lambda>(t, li). length t - li)") (auto dest!: reExec_lexRe_bounds)

declare lexLoop.simps [simp del]

definition lex :: "string \<Rightarrow> token list" where
  "lex template = lexLoop template 0"

section \<open>Parser\<close>

datatype node =
    NText string
  | NVar string tokenPos
  | NIf "(string option \<times> node list) list" tokenPos
  | NFor "string list" string "node list" tokenPos
  | NInclude string tokenPos
  | NBlock string "node list" tokenPos
  | NExtends string tokenPos

text \<open>
  The open frames of the parser. An if-frame holds its branches and the index of the
  branch that receives nodes (its field \<open>nodes\<close> is never used); the other frames hold
  the nodes of their body. Every frame records the position of the tag that opened it.
\<close>

datatype frame =
    IfFrame "node list" "(string option \<times> node list) list" nat tokenPos
  | ForFrame "node list" "string list" string tokenPos
  | BlockFrame "node list" string tokenPos

fun framePos :: "frame \<Rightarrow> tokenPos" where
  "framePos (IfFrame ns brs cur p) = p"
| "framePos (ForFrame ns vs it p) = p"
| "framePos (BlockFrame ns name p) = p"

text \<open>
  The errors \<open>parse\<close> throws, with the line and column they report. \<open>BranchIndex\<close>
  stands for the \<open>TypeError\<close> of \<open>branches[current].body\<close> on an index out of range.
\<close>

datatype parseError =
    Unexpected string nat nat
  | InvalidFor nat nat
  | InvalidInclude nat nat
  | InvalidBlock nat nat
  | InvalidExtends nat nat
  | Unclosed nat nat
  | BranchIndex

definition atPos :: "nat \<Rightarrow> nat \<Rightarrow> string" where
  "atPos l c = '' at '' @ showNat l @ '':'' @ showNat c"

fun errorMessage :: "parseError \<Rightarrow> string" where
  "errorMessage (Unexpected tag l c) = ''Unexpected '' @ tag @ atPos l c"
| "errorMessage (InvalidFor l c) = ''Invalid for tag'' @ atPos l c"
| "errorMessage (InvalidInclude l c) = ''Invalid include'' @ atPos l c"
| "errorMessage (InvalidBlock l c) = ''Invalid block'' @ atPos l c"
| "errorMessage (InvalidExtends l c) = ''Invalid extends'' @ atPos l c"
| "errorMessage (Unclosed l c) = ''Unclosed tag'' @ atPos l c"
| "errorMessage BranchIndex = ''Cannot read properties of undefined''"

fun splitUnquotedLoop ::
  "char \<Rightarrow> string list \<Rightarrow> string \<Rightarrow> bool \<Rightarrow> bool \<Rightarrow> bool \<Rightarrow> string \<Rightarrow> string list" where
  "splitUnquotedLoop sep parts buf inSingle inDouble esc [] = parts @ [buf]"
| "splitUnquotedLoop sep parts buf inSingle inDouble esc (ch # rest) =
     (if esc then splitUnquotedLoop sep parts (buf @ [ch]) inSingle inDouble False rest
      else if ch = CHR 0x5C then splitUnquotedLoop sep parts (buf @ [ch]) inSingle inDouble True rest
      else if ch = CHR 0x27 \<and> \<not> inDouble
        then splitUnquotedLoop sep parts (buf @ [ch]) (\<not> inSingle) inDouble False rest
      else if ch = CHR 0x22 \<and> \<not> inSingle
        then splitUnquotedLoop sep parts (buf @ [ch]) inSingle (\<not> inDouble) False rest
      else if \<not> inSingle \<and> \<not> inDouble \<and> ch = sep
        then splitUnquotedLoop sep (parts @ [buf]) [] inSingle inDouble False rest
      else splitUnquotedLoop sep parts (buf @ [ch]) inSingle inDouble False rest)"

definition splitUnquoted :: "string \<Rightarrow> char \<Rightarrow> string list" where
  \<comment> \<open>The separator is a one-character string at every call.\<close>
  "splitUnquoted input sep = map trim (splitUnquotedLoop sep [] [] False False False input)"

definition forRe :: re where
  \<comment> \<open>\<open>/^for\s+(.+?)\s+in\s+([\s\S]+)$/\<close>\<close>
  "forRe = seqs [Bol, Lit ''for'', Plus True isSpace, Grp 1 (Plus False isDot),
                 Plus True isSpace, Lit ''in'', Plus True isSpace, Grp 2 (Plus True isAny), Eol]"

definition includeRe :: re where
  \<comment> \<open>\<open>/^include\s+["']([\s\S]+?)["']$/\<close>\<close>
  "includeRe = seqs [Bol, Lit ''include'', Plus True isSpace, Cls isQuote,
                     Grp 1 (Plus False isAny), Cls isQuote, Eol]"

definition extendsRe :: re where
  \<comment> \<open>\<open>/^extends\s+["']([\s\S]+?)["']$/\<close>\<close>
  "extendsRe = seqs [Bol, Lit ''extends'', Plus True isSpace, Cls isQuote,
                     Grp 1 (Plus False isAny), Cls isQuote, Eol]"

definition blockRe :: re where
  \<comment> \<open>\<open>/^block\s+(\w+)$/\<close>\<close>
  "blockRe = seqs [Bol, Lit ''block'', Plus True isSpace, Grp 1 (Plus True isWord), Eol]"

type_synonym pstate = "node list \<times> frame list"

text \<open>
  The parser state is the top-level output and the stack of open frames, innermost
  first. \<open>pushNode\<close> appends a node at the current insertion point.
\<close>

fun pushNode :: "node \<Rightarrow> pstate \<Rightarrow> parseError + pstate" where
  "pushNode n (out, []) = Inr (out @ [n], [])"
| "pushNode n (out, IfFrame ns brs cur p # fs) =
     (if cur < length brs
      then Inr (out, IfFrame ns (brs[cur := (fst (brs ! cur), snd (brs ! cur) @ [n])]) cur p # fs)
      else Inl BranchIndex)"
| "pushNode n (out, ForFrame ns vs it p # fs) = Inr (out, ForFrame (ns @ [n]) vs it p # fs)"
| "pushNode n (out, BlockFrame ns name p # fs) = Inr (out, BlockFrame (ns @ [n]) name p # fs)"

definition tagName :: "string \<Rightarrow> string" where
  \<comment> \<open>\<open>splitUnquoted(t.content, " ")[0]\<close>\<close>
  "tagName c = (case splitUnquoted c CHR '' '' of [] \<Rightarrow> [] | x # xs \<Rightarrow> x)"

definition parseTag :: "token \<Rightarrow> pstate \<Rightarrow> parseError + pstate" where
  "parseTag t st =
     (case st of (out, stack) \<Rightarrow>
      let tag = tagName (content t); l = line (pos t); c = col (pos t) in
      if tag = ''if'' then
        Inr (out, IfFrame [] [(Some (trim (drop 2 (content t))), [])] 0 (pos t) # stack)
      else if tag = ''elif'' \<or> tag = ''else'' then
        (case stack of
           IfFrame ns brs cur p # fs \<Rightarrow>
             (let cond = (if tag = ''elif'' then Some (trim (drop 4 (content t))) else None);
                  brs' = brs @ [(cond, [])]
              in Inr (out, IfFrame ns brs' (length brs' - 1) p # fs))
         | _ \<Rightarrow> Inl (Unexpected tag l c))
      else if tag = ''endif'' then
        (case stack of
           IfFrame ns brs cur p # fs \<Rightarrow> pushNode (NIf brs p) (out, fs)
         | _ \<Rightarrow> Inl (Unexpected ''endif'' l c))
      else if tag = ''for'' then
        (case reMatch forRe (content t) of
           None \<Rightarrow> Inl (InvalidFor l c)
         | Some m \<Rightarrow>
             (let varNames = filter (\<lambda>s. s \<noteq> []) (map trim (splitOn CHR '','' [] (cap m 1)));
                  iterableExpr = trim (cap m 2)
              in Inr (out, ForFrame [] varNames iterableExpr (pos t) # stack)))
      else if tag = ''endfor'' then
        (case stack of
           ForFrame ns vs it p # fs \<Rightarrow> pushNode (NFor vs it ns p) (out, fs)
         | _ \<Rightarrow> Inl (Unexpected ''endfor'' l c))
      else if tag = ''include'' then
        (case reMatch includeRe (content t) of
           None \<Rightarrow> Inl (InvalidInclude l c)
         | Some m \<Rightarrow> pushNode (NInclude (cap m 1) (pos t)) st)
      else if tag = ''block'' then
        (case reMatch blockRe (content t) of
           None \<Rightarrow> Inl (InvalidBlock l c)
         | Some m \<Rightarrow> Inr (out, BlockFrame [] (cap m 1) (pos t) # stack))
      else if tag = ''endblock'' then
        (case stack of
           BlockFrame ns name p # fs \<Rightarrow> pushNode (NBlock name ns p) (out, fs)
         | _ \<Rightarrow> Inl (Unexpected ''endblock'' l c))
      else if tag = ''extends'' then
        (case reMatch extendsRe (content t) of
           None \<Rightarrow> Inl (InvalidExtends l c)
         | Some m \<Rightarrow> pushNode (NExtends (cap m 1) (pos t)) st)
      else pushNode (NText (''{% '' @ content t @ '' %}'')) st)"

definition parseToken :: "token \<Rightarrow> pstate \<Rightarrow> parseError + pstate" where
  "parseToken t st =
     (case ttype t of
        TComment \<Rightarrow> Inr st
      | TText \<Rightarrow> pushNode (NText (content t)) st
      | TVar \<Rightarrow> pushNode (NVar (content t) (pos t)) st
      | TTag \<Rightarrow> parseTag t st)"

fun parseLoop :: "token list \<Rightarrow> pstate \<Rightarrow> parseError + pstate" where
  "parseLoop [] st = Inr st"
| "parseLoop (t # ts) st =
     (case parseToken t st of Inl e \<Rightarrow> Inl e | Inr st' \<Rightarrow> parseLoop ts st')"

definition parse :: "token list \<Rightarrow> parseError + node list" where
  "parse tokens =
     (case parseLoop tokens ([], []) of
        Inl e \<Rightarrow> Inl e
      | Inr (out, stack) \<Rightarrow>
          (case stack of
             [] \<Rightarrow> Inr out
           | f # fs \<Rightarrow> Inl (Unclosed (line (framePos f)) (col (framePos f)))))"

section \<open>Expression evaluator\<close>

definition numRe :: re where
  \<comment> \<open>\<open>/^-?\d+(\.\d+)?$/\<close>\<close>
  "numRe = seqs [Bol, Opt (Lit ''-''), Plus True isDigit,
                 Opt (Grp 1 (Seq (Lit ''.'') (Plus True isDigit))), Eol]"

definition quotedRe :: re where
  \<comment> \<open>\<open>/^"(.*)"$|^'(.*)'$/s\<close>\<close>
  "quotedRe =
     Alt (seqs [Bol, Lit [CHR 0x22], Grp 1 (Star True isAny), Lit [CHR 0x22], Eol])
         (seqs [Bol, Lit [CHR 0x27], Grp 2 (Star True isAny), Lit [CHR 0x27], Eol])"

definition identRe :: re where
  \<comment> \<open>\<open>/^[A-Za-z_$][A-Za-z0-9_$]*/\<close>; group 0 is the whole match.\<close>
  "identRe = Seq Bol (Grp 0 (Seq (Cls isIdentStart) (Star True isIdentChar)))"

definition cmpRe :: re where
  \<comment> \<open>\<open>/^(.*?)\s*(==|!=|>=|<=|>|<)\s*(.*?)$/\<close>\<close>
  "cmpRe = seqs [Bol, Grp 1 (Star False isDot), Star True isSpace,
                 Grp 2 (Alt (Lit ''=='') (Alt (Lit ''!='') (Alt (Lit ''>='')
                       (Alt (Lit ''<='') (Alt (Lit ''>'') (Lit ''<'')))))),
                 Star True isSpace, Grp 3 (Star False isDot), Eol]"

text \<open>
  The steps of a path chain after its first name: \<open>.name\<close>, \<open>[expr]\<close> and \<open>()\<close>.
\<close>

datatype chainStep = SProp string | SIndex string | SCall

fun scanBracket :: "nat \<Rightarrow> string \<Rightarrow> string \<Rightarrow> (string \<times> string) option" where
  \<comment> \<open>The loop that looks for the bracket closing an index: \<open>acc\<close> is \<open>expr.slice(i, j)\<close>.
      The result is \<open>expr.slice(i, j - 1)\<close> and the input from \<open>j\<close> on; \<open>None\<close> when the
      input ends with \<open>depth \<noteq> 0\<close>.\<close>
  "scanBracket depth acc s =
     (if depth = 0 then Some (butlast acc, s)
      else (case s of
              [] \<Rightarrow> None
            | c # cs \<Rightarrow>
                scanBracket (if c = CHR ''['' then depth + 1
                             else if c = CHR '']'' then depth - 1 else depth) (acc @ [c]) cs))"

declare scanBracket.simps [simp del]

lemma scanBracket_zero: "scanBracket 0 acc s = Some (butlast acc, s)"
  by (simp add: scanBracket.simps)

lemma scanBracket_Nil: "0 < d \<Longrightarrow> scanBracket d acc [] = None"
  by (simp add: scanBracket.simps)

lemma scanBracket_Cons:
  "0 < d \<Longrightarrow> scanBracket d acc (c # cs) =
     scanBracket (if c = CHR ''['' then d + 1 else if c = CHR '']'' then d - 1 else d) (acc @ [c]) cs"
  by (subst scanBracket.simps) simp

lemma scanBracket_length:
  "scanBracket d acc s = Some (inner, rest) \<Longrightarrow>
     length rest \<le> length s \<and> (0 < d \<longrightarrow> length inner + length rest < length acc + length s)"
proof (induction s arbitrary: d acc)
  case Nil
  then show ?case by (cases "d = 0") (auto simp: scanBracket_zero scanBracket_Nil)
next
  case (Cons c cs)
  show ?case
  proof (cases "d = 0")
    case True
    with Cons.prems show ?thesis by (auto simp: scanBracket_zero)
  next
    case False
    let ?d' = "if c = CHR ''['' then d + 1 else if c = CHR '']'' then d - 1 else d"
    from False Cons.prems have s: "scanBracket ?d' (acc @ [c]) cs = Some (inner, rest)"
      by (simp add: scanBracket_Cons)
    from Cons.IH[OF s] have 1: "length rest \<le> length cs"
      and 2: "0 < ?d' \<longrightarrow> length inner + length rest < length (acc @ [c]) + length cs" by auto
    show ?thesis
    proof (cases "?d' = 0")
      case True
      with s have "inner = butlast (acc @ [c])" "rest = cs"
        by (auto simp: scanBracket_zero)
      then show ?thesis by auto
    next
      case False
      with 1 2 show ?thesis by auto
    qed
  qed
qed

function parseSteps :: "string \<Rightarrow> chainStep list option" where
  \<comment> \<open>The loop that reads the steps of a chain from \<open>expr.slice(i)\<close>; \<open>None\<close> where the
      source returns \<open>undefined\<close>, the steps read so far where it breaks out of the loop.\<close>
  "parseSteps [] = Some []"
| "parseSteps (ch # rest) =
     (if ch = CHR ''.'' then
        (case reMatch identRe rest of
           None \<Rightarrow> None
         | Some m \<Rightarrow> map_option (Cons (SProp (cap m 0))) (parseSteps (drop (length (cap m 0)) rest)))
      else if ch = CHR ''['' then
        (case scanBracket 1 [] rest of
           None \<Rightarrow> None
         | Some (inner, rest') \<Rightarrow> map_option (Cons (SIndex (trim inner))) (parseSteps rest'))
      else if startsWith (ch # rest) ''()'' then
        map_option (Cons SCall) (parseSteps (drop 1 rest))
      else Some [])"
  by pat_completeness auto
termination
  by (relation "measure length") (auto dest: scanBracket_length)

declare parseSteps.simps [simp del]

fun stepSize :: "chainStep \<Rightarrow> nat" where
  "stepSize (SIndex e) = length e + 2"
| "stepSize _ = 1"

lemma length_trim: "length (trim s) \<le> length s"
proof -
  have "length (trim s) \<le> length (dropWhile isSpace s)"
    unfolding trim_def by (metis length_dropWhile_le length_rev)
  also have "\<dots> \<le> length s" by (rule length_dropWhile_le)
  finally show ?thesis .
qed

lemma parseSteps_size:
  "parseSteps s = Some steps \<Longrightarrow> sum_list (map stepSize steps) \<le> length s"
proof (induction s arbitrary: steps rule: parseSteps.induct)
  case 1
  then show ?case by (simp add: parseSteps.simps)
next
  case (2 ch rest)
  show ?case
  proof (cases "ch = CHR ''.''")
    case True
    with "2.prems" obtain m steps' where
      m: "reMatch identRe rest = Some m" and
      p: "parseSteps (drop (length (cap m 0)) rest) = Some steps'" and
      s: "steps = SProp (cap m 0) # steps'"
      by (auto simp: parseSteps.simps split: option.splits)
    from "2.IH"(1)[OF True m p] s show ?thesis by auto
  next
    case notdot: False
    show ?thesis
    proof (cases "ch = CHR ''[''")
      case True
      with notdot "2.prems" obtain inner rest' steps' where
        b: "scanBracket 1 [] rest = Some (inner, rest')" and
        p: "parseSteps rest' = Some steps'" and
        s: "steps = SIndex (trim inner) # steps'"
        by (auto simp: parseSteps.simps split: option.splits)
      from "2.IH"(2)[OF notdot True b refl p] have "sum_list (map stepSize steps') \<le> length rest'" .
      moreover from scanBracket_length[OF b] have "length inner + length rest' < length rest" by simp
      moreover have "length (trim inner) \<le> length inner" by (rule length_trim)
      ultimately show ?thesis using s by simp
    next
      case notbr: False
      show ?thesis
      proof (cases "startsWith (ch # rest) ''()''")
        case True
        with notdot notbr "2.prems" obtain steps' where
          p: "parseSteps (drop 1 rest) = Some steps'" and s: "steps = SCall # steps'"
          by (auto simp: parseSteps.simps split: option.splits)
        from "2.IH"(3)[OF notdot notbr True p] s show ?thesis by auto
      next
        case False
        with notdot notbr "2.prems" show ?thesis by (simp add: parseSteps.simps)
      qed
    qed
  qed
qed

text \<open>
  The two operations of the evaluator that can throw in JavaScript: reading a property of
  \<open>null\<close> or \<open>undefined\<close>, and calling a value. A host function may throw too.
\<close>

datatype jsError = TypeError | Thrown

definition jsGet :: "jsval \<Rightarrow> string \<Rightarrow> jsError + jsval" where
  \<comment> \<open>\<open>v[key]\<close>\<close>
  "jsGet v k = (if isNullish v then Inl TypeError else Inr (getOwn v k))"

definition jsCall :: "host \<Rightarrow> jsval \<Rightarrow> ctx \<Rightarrow> jsError + jsval" where
  \<comment> \<open>\<open>v.call(context)\<close>\<close>
  "jsCall h v c =
     (case v of
        VFun f \<Rightarrow> (case hcall h f c of None \<Rightarrow> Inl Thrown | Some r \<Rightarrow> Inr r)
      | _ \<Rightarrow> Inl TypeError)"

fun isFunction :: "jsval \<Rightarrow> bool" where
  \<comment> \<open>\<open>typeof v === "function"\<close>\<close>
  "isFunction (VFun f) = True"
| "isFunction _ = False"

lemma parseSteps_size_trim:
  assumes "parseSteps (drop n (trim expr0)) = Some chain"
  shows "2 * sum_list (map stepSize chain) < Suc (2 * length expr0)"
proof -
  from parseSteps_size[OF assms] have "sum_list (map stepSize chain) \<le> length (trim expr0)"
    by simp
  also have "\<dots> \<le> length expr0" by (rule length_trim)
  finally show ?thesis by simp
qed

text \<open>
  \<open>getValueFromExprE\<close> is the source function with the exceptions of JavaScript made
  explicit; \<open>evalChainE\<close> is its loop over the steps of the chain. The dead checks on
  the first element of the chain (it is always the name) are left out.
\<close>

function getValueFromExprE :: "host \<Rightarrow> ctx \<Rightarrow> string \<Rightarrow> jsError + jsval"
  and evalChainE :: "host \<Rightarrow> ctx \<Rightarrow> jsval \<Rightarrow> chainStep list \<Rightarrow> jsError + jsval" where
  "getValueFromExprE h c expr0 =
     (let expr = trim expr0 in
      if expr = ''true'' then Inr (VBool True)
      else if expr = ''false'' then Inr (VBool False)
      else if expr = ''null'' \<or> expr = ''undefined'' then Inr VNull
      else if reTest numRe expr then Inr (VNum (numberOfLit expr))
      else (case reMatch quotedRe expr of
              Some q \<Rightarrow> Inr (VStr (case q 1 of Some s \<Rightarrow> s | None \<Rightarrow> cap q 2))
            | None \<Rightarrow>
               (case reMatch identRe expr of
                  None \<Rightarrow> Inr VUndefined
                | Some nameMatch \<Rightarrow>
                   (case parseSteps (drop (length (cap nameMatch 0)) expr) of
                      None \<Rightarrow> Inr VUndefined
                    | Some chain \<Rightarrow> evalChainE h c (ctxGet c (cap nameMatch 0)) chain))))"
| "evalChainE h c cur [] = Inr cur"
| "evalChainE h c cur (step # chain) =
     (if isNullish cur then Inr VUndefined
      else (case step of
              SProp name \<Rightarrow>
                (if isObjLike cur
                 then (case jsGet cur name of Inl e \<Rightarrow> Inl e | Inr v \<Rightarrow> evalChainE h c v chain)
                 else Inr VUndefined)
            | SIndex e \<Rightarrow>
                (case getValueFromExprE h c e of
                   Inl err \<Rightarrow> Inl err
                 | Inr idx \<Rightarrow>
                     (if isStrOrNum idx
                      then (if isObjLike cur
                            then (case jsGet cur (toStr h idx) of
                                    Inl err \<Rightarrow> Inl err
                                  | Inr v \<Rightarrow> evalChainE h c v chain)
                            else Inr VUndefined)
                      else Inr VUndefined))
            | SCall \<Rightarrow>
                (if isFunction cur
                 then evalChainE h c (case jsCall h cur c of Inl err \<Rightarrow> VUndefined | Inr v \<Rightarrow> v) chain
                 else evalChainE h c VUndefined chain)))"
  by pat_completeness auto
termination
  by (relation "measure (\<lambda>x. case x of
          Inl (h, c, e) \<Rightarrow> 2 * length e + 1
        | Inr (h, c, cur, chain) \<Rightarrow> 2 * sum_list (map stepSize chain))")
     (simp_all add: parseSteps_size_trim)

declare getValueFromExprE.simps [simp del]

definition getValueFromExpr :: "host \<Rightarrow> ctx \<Rightarrow> string \<Rightarrow> jsval" where
  \<comment> \<open>The value the source function returns.\<close>
  "getValueFromExpr h c expr =
     (case getValueFromExprE h c expr of Inr v \<Rightarrow> v | Inl err \<Rightarrow> VUndefined)"

definition indexOfChar :: "char \<Rightarrow> string \<Rightarrow> nat option" where
  \<comment> \<open>\<open>s.indexOf(c)\<close>, \<open>None\<close> for \<open>-1\<close>.\<close>
  "indexOfChar c s = (if c \<in> set s then Some (length (takeWhile (\<lambda>x. x \<noteq> c) s)) else None)"

definition applyFilter :: "host \<Rightarrow> ctx \<Rightarrow> jsval \<Rightarrow> string \<Rightarrow> jsval" where
  \<comment> \<open>The body of the loop of \<open>applyFilters\<close>.\<close>
  "applyFilter h c val f =
     (if f = [] then val
      else (case (case indexOfChar CHR '':'' f of
                    None \<Rightarrow> (f, VUndefined)
                  | Some idx \<Rightarrow> (trim (take idx f), getValueFromExpr h c (trim (drop (Suc idx) f)))) of
              (fname, farg) \<Rightarrow>
                (case filters fname of
                   Some fn \<Rightarrow> fn h val farg
                 | None \<Rightarrow> val)))"

definition applyFilters :: "host \<Rightarrow> ctx \<Rightarrow> jsval \<Rightarrow> string list \<Rightarrow> jsval" where
  "applyFilters h c v filterExprs = foldl (applyFilter h c) v filterExprs"

definition evalVarExpression :: "host \<Rightarrow> ctx \<Rightarrow> string \<Rightarrow> jsval" where
  \<comment> \<open>\<open>splitUnquoted\<close> returns at least one part.\<close>
  "evalVarExpression h c expr =
     (case splitUnquoted expr CHR ''|'' of
        [] \<Rightarrow> VUndefined
      | main # filterExprs \<Rightarrow> applyFilters h c (getValueFromExpr h c main) filterExprs)"

fun strLess :: "string \<Rightarrow> string \<Rightarrow> bool" where
  \<comment> \<open>\<open>L < R\<close> on strings: the lexicographic order of the code units.\<close>
  "strLess [] [] = False"
| "strLess [] (y # ys) = True"
| "strLess (x # xs) [] = False"
| "strLess (x # xs) (y # ys) =
     (if x = y then strLess xs ys else (of_char x :: nat) < of_char y)"

definition compareOps :: "string list" where
  "compareOps = [''>'', ''<'', ''>='', ''<='', ''=='', ''!='']"

definition safeCompare :: "host \<Rightarrow> jsval \<Rightarrow> jsval \<Rightarrow> string \<Rightarrow> bool" where
  "safeCompare h left right op =
     (case (left, right) of
        (VNum a, VNum b) \<Rightarrow>
          (if op = ''>'' then decLess b a
           else if op = ''<'' then decLess a b
           else if op = ''>='' then \<not> decLess a b
           else if op = ''<='' then \<not> decLess b a
           else if op = ''=='' then decEq a b
           else if op = ''!='' then \<not> decEq a b
           else False)
      | _ \<Rightarrow>
          (let L = (if isNullish left then [] else toStr h left);
               R = (if isNullish right then [] else toStr h right)
           in if op = ''>'' then strLess R L
              else if op = ''<'' then strLess L R
              else if op = ''>='' then \<not> strLess L R
              else if op = ''<='' then \<not> strLess R L
              else if op = ''=='' then L = R
              else if op = ''!='' then L \<noteq> R
              else False))"

definition evalTestExpression :: "host \<Rightarrow> ctx \<Rightarrow> string \<Rightarrow> bool" where
  "evalTestExpression h c expr0 =
     (let expr = trim expr0 in
      if expr = [] then False
      else (case reMatch cmpRe expr of
              Some cmp \<Rightarrow>
                safeCompare h (getValueFromExpr h c (cap cmp 1)) (getValueFromExpr h c (cap cmp 3))
                  (cap cmp 2)
            | None \<Rightarrow> truthy (getValueFromExpr h c expr)))"

section \<open>Template store\<close>

definition TEMPLATES_DIR :: string where
  "TEMPLATES_DIR = ''./templates''"

definition joinPath :: "string list \<Rightarrow> string" where
  \<comment> \<open>\<open>parts.join("/").replace(/\\/g, "/")\<close>\<close>
  "joinPath parts = replaceChar (CHR 0x5C) ''/'' (joinWith ''/'' parts)"

record template =
  tpath :: string
  src :: string
  ast :: "node list"

record templateLoader =
  dir :: string
  cache :: "string \<Rightarrow> template option"

text \<open>
  The errors of a render: a file that cannot be read, a template that does not parse,
  and recursion without end (a template that includes or extends itself overflows the
  call stack), which the model reaches when its fuel runs out.
\<close>

datatype renderError = ReadError string | ParseError parseError | StackOverflow

type_synonym files = "string \<Rightarrow> string option"

definition readFile :: "files \<Rightarrow> string \<Rightarrow> renderError + string" where
  \<comment> \<open>\<open>Deno.readTextFileSync(path)\<close> on the file system \<open>fs\<close>.\<close>
  "readFile fs path = (case fs path of None \<Rightarrow> Inl (ReadError path) | Some s \<Rightarrow> Inr s)"

definition load :: "files \<Rightarrow> templateLoader \<Rightarrow> string \<Rightarrow> renderError + (template \<times> templateLoader)" where
  \<comment> \<open>\<open>TemplateLoader.load\<close>: the template and the loader with its cache updated.\<close>
  "load fs ld relpath =
     (case cache ld relpath of
        Some tpl \<Rightarrow> Inr (tpl, ld)
      | None \<Rightarrow>
          (case readFile fs (joinPath [dir ld, relpath]) of
             Inl e \<Rightarrow> Inl e
           | Inr s \<Rightarrow>
               (case parse (lex s) of
                  Inl e \<Rightarrow> Inl (ParseError e)
                | Inr a \<Rightarrow>
                    (let tpl = \<lparr> tpath = relpath, src = s, ast = a \<rparr>
                     in Inr (tpl, ld\<lparr> cache := (cache ld)(relpath \<mapsto> tpl) \<rparr>)))))"

definition newLoader :: "string \<Rightarrow> templateLoader" where
  "newLoader d = \<lparr> dir = d, cache = Map.empty \<rparr>"

definition loadAst :: "files \<Rightarrow> string \<Rightarrow> renderError + node list" where
  \<comment> \<open>The tree \<open>loader.load(path).ast\<close> of the module's loader. The cache only saves
      work on a file system that does not change, so the renderer below reads through it.\<close>
  "loadAst fs relpath =
     (case load fs (newLoader TEMPLATES_DIR) relpath of
        Inl e \<Rightarrow> Inl e
      | Inr (tpl, ld) \<Rightarrow> Inr (ast tpl))"

section \<open>Renderer\<close>

fun concatResults :: "(renderError + string) list \<Rightarrow> renderError + string" where
  \<comment> \<open>\<open>out += ...\<close> over a loop: the first error ends it.\<close>
  "concatResults [] = Inr []"
| "concatResults (r # rs) =
     (case r of
        Inl e \<Rightarrow> Inl e
      | Inr s \<Rightarrow> (case concatResults rs of Inl e \<Rightarrow> Inl e | Inr t \<Rightarrow> Inr (s @ t)))"

definition collectBlocks :: "node list \<Rightarrow> (string \<Rightarrow> node list option)" where
  \<comment> \<open>The first loop of \<open>renderNodes\<close>: \<open>blocks[n.name] = n.body\<close>.\<close>
  "collectBlocks nodes =
     foldl (\<lambda>blocks n. case n of NBlock name body p \<Rightarrow> blocks(name \<mapsto> body) | _ \<Rightarrow> blocks)
       Map.empty nodes"

definition findExtends :: "node list \<Rightarrow> string option" where
  \<comment> \<open>The same loop: \<open>hasExtends\<close> and \<open>extendsPath\<close>; the last extends node wins.\<close>
  "findExtends nodes =
     foldl (\<lambda>ext n. case n of NExtends path p \<Rightarrow> Some path | _ \<Rightarrow> ext) None nodes"

definition renderVar :: "host \<Rightarrow> ctx \<Rightarrow> string \<Rightarrow> string" where
  \<comment> \<open>The variable case of \<open>renderNode\<close>.\<close>
  "renderVar h c expr =
     (let val = evalVarExpression h c expr in
      if isNullish val then []
      else (case val of
              VSafe s \<Rightarrow> s
            | _ \<Rightarrow> escapeHtml (toStr h val)))"

fun selectBranch :: "host \<Rightarrow> ctx \<Rightarrow> (string option \<times> node list) list \<Rightarrow> node list option" where
  \<comment> \<open>The loop over the branches of a conditional: the body it renders, if any.\<close>
  "selectBranch h c [] = None"
| "selectBranch h c ((test, body) # brs) =
     (case test of
        None \<Rightarrow> Some body
      | Some t \<Rightarrow> if evalTestExpression h c t then Some body else selectBranch h c brs)"

fun arrayItem :: "jsval list \<Rightarrow> nat \<Rightarrow> jsval" where
  \<comment> \<open>\<open>it[j]\<close> for an array\<close>
  "arrayItem xs j = (if j < length xs then xs ! j else VUndefined)"

definition bindArrayItem :: "string list \<Rightarrow> jsval \<Rightarrow> ctx \<Rightarrow> ctx" where
  \<comment> \<open>The child context of one step over an array.\<close>
  "bindArrayItem varNames it c =
     (if length varNames = 1 then c(varNames ! 0 \<mapsto> it)
      else (case it of
              VArr xs \<Rightarrow>
                foldl (\<lambda>cc j. cc(varNames ! j \<mapsto> arrayItem xs j)) c [0..<length varNames]
            | _ \<Rightarrow>
                foldl (\<lambda>cc j. cc(varNames ! j \<mapsto> VUndefined)) c [0..<length varNames]))"

definition bindEntry :: "string list \<Rightarrow> string \<Rightarrow> jsval \<Rightarrow> ctx \<Rightarrow> ctx" where
  \<comment> \<open>The child context of one step over the entries of an object.\<close>
  "bindEntry varNames k v c =
     (if length varNames = 1 then c(varNames ! 0 \<mapsto> v)
      else if length varNames \<ge> 2 then (c(varNames ! 0 \<mapsto> VStr k))(varNames ! 1 \<mapsto> v)
      else c)"

fun objectEntries :: "jsval \<Rightarrow> (string \<times> jsval) list" where
  \<comment> \<open>\<open>Object.entries(v)\<close> for an object that is not an array.\<close>
  "objectEntries (VObj kvs) = kvs"
| "objectEntries (VSafe s) = [(''value'', VStr s)]"
| "objectEntries _ = []"

definition loopContexts :: "host \<Rightarrow> ctx \<Rightarrow> string list \<Rightarrow> string \<Rightarrow> ctx list" where
  \<comment> \<open>The child contexts of the steps of a loop, in order.\<close>
  "loopContexts h c varNames iterableExpr =
     (let v = getValueFromExpr h c iterableExpr;
          iterable = (if truthy v then v else VArr [])
      in (case iterable of
            VArr xs \<Rightarrow> map (\<lambda>it. bindArrayItem varNames it c) xs
          | VObj kvs \<Rightarrow> map (\<lambda>(k, v). bindEntry varNames k v c) (objectEntries iterable)
          | VSafe s \<Rightarrow> map (\<lambda>(k, v). bindEntry varNames k v c) (objectEntries iterable)
          | _ \<Rightarrow> []))"

text \<open>
  The three mutually recursive functions of the renderer. The first argument after the
  host and the file system bounds the depth of the recursion: it stands for the call
  stack, and a render that exhausts it is the error \<open>StackOverflow\<close>.
\<close>

fun renderNodes :: "host \<Rightarrow> files \<Rightarrow> nat \<Rightarrow> node list \<Rightarrow> ctx \<Rightarrow> renderError + string"
  and renderNode :: "host \<Rightarrow> files \<Rightarrow> nat \<Rightarrow> ctx \<Rightarrow> node \<Rightarrow> renderError + string"
  and renderParentWithChild ::
    "host \<Rightarrow> files \<Rightarrow> nat \<Rightarrow> node list \<Rightarrow> ctx \<Rightarrow> (string \<Rightarrow> node list option) \<Rightarrow> renderError + string"
  where
  "renderNodes h fs 0 nodes c = Inl StackOverflow"
| "renderNodes h fs (Suc n) nodes c =
     (case findExtends nodes of
        Some extendsPath \<Rightarrow>
          (case loadAst fs extendsPath of
             Inl e \<Rightarrow> Inl e
           | Inr parent \<Rightarrow> renderParentWithChild h fs n parent c (collectBlocks nodes))
      | None \<Rightarrow> concatResults (map (renderNode h fs n c) nodes))"
| "renderNode h fs 0 c nd = Inl StackOverflow"
| "renderNode h fs (Suc n) c nd =
     (case nd of
        NText text \<Rightarrow> Inr text
      | NVar expr p \<Rightarrow> Inr (renderVar h c expr)
      | NInclude path p \<Rightarrow>
          (case loadAst fs path of
             Inl e \<Rightarrow> Inl e
           | Inr tpl \<Rightarrow> renderNodes h fs n tpl c)
      | NBlock name body p \<Rightarrow> renderNodes h fs n body c
      | NIf branches p \<Rightarrow>
          (case selectBranch h c branches of
             Some body \<Rightarrow> renderNodes h fs n body c
           | None \<Rightarrow> Inr [])
      | NFor varNames iterableExpr body p \<Rightarrow>
          concatResults
            (map (\<lambda>childCtx. renderNodes h fs n body childCtx)
               (loopContexts h c varNames iterableExpr))
      | NExtends path p \<Rightarrow> Inr [])"
| "renderParentWithChild h fs 0 parentNodes c childBlocks = Inl StackOverflow"
| "renderParentWithChild h fs (Suc n) parentNodes c childBlocks =
     concatResults
       (map (\<lambda>nd. case nd of
                NBlock name body p \<Rightarrow>
                  (case childBlocks name of
                     Some b \<Rightarrow> renderNodes h fs n b c
                   | None \<Rightarrow> renderNodes h fs n body c)
              | NExtends path p \<Rightarrow>
                  (case loadAst fs path of
                     Inl e \<Rightarrow> Inl e
                   | Inr parent \<Rightarrow> renderParentWithChild h fs n parent c childBlocks)
              | NInclude path p \<Rightarrow>
                  (case loadAst fs path of
                     Inl e \<Rightarrow> Inl e
                   | Inr tpl \<Rightarrow> renderNodes h fs n tpl c)
              | _ \<Rightarrow> renderNodes h fs n [nd] c)
          parentNodes)"

definition renderTemplate :: "host \<Rightarrow> files \<Rightarrow> nat \<Rightarrow> string \<Rightarrow> ctx \<Rightarrow> renderError + string" where
  "renderTemplate h fs n path c =
     (case loadAst fs path of
        Inl e \<Rightarrow> Inl e
      | Inr tree \<Rightarrow> renderNodes h fs n tree c)"

section \<open>Rendering a variable\<close>

definition htmlEntity :: "char \<Rightarrow> string" where
  \<comment> \<open>The entity that replaces a character in escaped output.\<close>
  "htmlEntity ch =
     (if ch = CHR ''&'' then ''&amp;''
      else if ch = CHR ''<'' then ''&lt;''
      else if ch = CHR ''>'' then ''&gt;''
      else if ch = CHR 0x22 then ''&quot;''
      else if ch = CHR 0x27 then ''&#39;''
      else [ch])"

definition noHost :: host where
  \<comment> \<open>A context without host functions.\<close>
  "noHost = \<lparr> hcall = (\<lambda>f c. None), hsrc = (\<lambda>f. []) \<rparr>"

definition noPos :: tokenPos where
  "noPos = \<lparr> line = 1, col = 1, index = 0 \<rparr>"

lemma replaceChar_append:
  "replaceChar c r (xs @ ys) = replaceChar c r xs @ replaceChar c r ys"
  by (induction xs) auto

lemma escapeHtml_Nil: "escapeHtml [] = []"
  by (simp add: escapeHtml_def)

lemma escapeHtml_Cons: "escapeHtml (x # xs) = htmlEntity x @ escapeHtml xs"
  by (simp add: escapeHtml_def htmlEntity_def replaceChar_append)

lemma escapeHtml_entities: "escapeHtml s = concat (map htmlEntity s)"
  by (induction s) (simp_all add: escapeHtml_Nil escapeHtml_Cons)

lemma renderNode_NVar:
  "renderNode h fs (Suc n) c (NVar expr p) = Inr (renderVar h c expr)"
  by simp

text \<open>
  C1. Rendering a variable node evaluates its expression; a null or missing value gives
  the empty string, a \<open>SafeString\<close> its wrapped string verbatim, and every other
  value its string form with \<open>&\<close>, \<open><\<close>, \<open>>\<close>, the double quote and the single quote
  replaced by their entities. With \<open>s\<close> bound to \<open><b>&'"\<close>, \<open>{{ s }}\<close> renders
  \<open>&lt;b&gt;&amp;&#39;&quot;\<close> and \<open>{{ s | safe }}\<close> renders the string itself.
\<close>

theorem variable_rendering:
  "renderNode h fs (Suc n) c (NVar expr p) =
     Inr (case evalVarExpression h c expr of
            VUndefined \<Rightarrow> []
          | VNull \<Rightarrow> []
          | VSafe s \<Rightarrow> s
          | v \<Rightarrow> concat (map htmlEntity (toStr h v)))
   \<and> renderNode h fs (Suc n) [''s'' \<mapsto> VStr (''<b>&'' @ [CHR 0x27, CHR 0x22])] (NVar ''s'' p) =
     Inr ''&lt;b&gt;&amp;&#39;&quot;''
   \<and> renderNode h fs (Suc n) [''s'' \<mapsto> VStr (''<b>&'' @ [CHR 0x27, CHR 0x22])] (NVar ''s | safe'' p) =
     Inr (''<b>&'' @ [CHR 0x27, CHR 0x22])"
proof (intro conjI)
  show "renderNode h fs (Suc n) c (NVar expr p) =
     Inr (case evalVarExpression h c expr of
            VUndefined \<Rightarrow> []
          | VNull \<Rightarrow> []
          | VSafe s \<Rightarrow> s
          | v \<Rightarrow> concat (map htmlEntity (toStr h v)))"
    by (simp add: renderVar_def Let_def escapeHtml_entities split: jsval.splits)
  show "renderNode h fs (Suc n) [''s'' \<mapsto> VStr (''<b>&'' @ [CHR 0x27, CHR 0x22])] (NVar ''s'' p) =
     Inr ''&lt;b&gt;&amp;&#39;&quot;''"
    unfolding renderNode_NVar by code_simp
  show "renderNode h fs (Suc n) [''s'' \<mapsto> VStr (''<b>&'' @ [CHR 0x27, CHR 0x22])] (NVar ''s | safe'' p) =
     Inr (''<b>&'' @ [CHR 0x27, CHR 0x22])"
    unfolding renderNode_NVar by code_simp
qed

theorem variable_rendering_witness:
  "renderNode noHost Map.empty (Suc 0) [''n'' \<mapsto> VNum (Dec 15 1), ''t'' \<mapsto> VStr ''a<b'']
     (NVar ''t | upper'' noPos) = Inr ''A&lt;B''
   \<and> renderNode noHost Map.empty (Suc 0) [''n'' \<mapsto> VNum (Dec 15 1), ''t'' \<mapsto> VStr ''a<b'']
     (NVar ''n'' noPos) = Inr ''1.5''
   \<and> renderNode noHost Map.empty (Suc 0) [''n'' \<mapsto> VNum (Dec 15 1), ''t'' \<mapsto> VStr ''a<b'']
     (NVar ''missing'' noPos) = Inr []"
proof -
  let ?c = "[''n'' \<mapsto> VNum (Dec 15 1), ''t'' \<mapsto> VStr ''a<b'']"
  have 1: "evalVarExpression noHost ?c ''t | upper'' = VStr ''A<B''" by code_simp
  have 2: "evalVarExpression noHost ?c ''n'' = VNum (Dec 15 1)" by code_simp
  have 3: "evalVarExpression noHost ?c ''missing'' = VUndefined" by code_simp
  have 4: "toStr noHost (VNum (Dec 15 1)) = ''1.5''" by code_simp
  show ?thesis
    using variable_rendering[THEN conjunct1, of noHost Map.empty 0 ?c "''t | upper''" noPos]
          variable_rendering[THEN conjunct1, of noHost Map.empty 0 ?c "''n''" noPos]
          variable_rendering[THEN conjunct1, of noHost Map.empty 0 ?c "''missing''" noPos]
    by (simp only: 1 2 3 4 jsval.case) (simp add: htmlEntity_def)
qed

section \<open>Rendering a conditional\<close>

definition branchFires :: "host \<Rightarrow> ctx \<Rightarrow> string option \<times> node list \<Rightarrow> bool" where
  \<comment> \<open>A branch is taken when its test is null (the else branch) or evaluates to true.\<close>
  "branchFires h c br = (case fst br of None \<Rightarrow> True | Some e \<Rightarrow> evalTestExpression h c e)"

lemma selectBranch_first:
  "list_all (\<lambda>b. \<not> branchFires h c b) pre \<Longrightarrow> branchFires h c br \<Longrightarrow>
     selectBranch h c (pre @ br # post) = Some (snd br)"
proof (induction pre)
  case Nil
  then show ?case by (cases br) (auto simp: branchFires_def split: option.splits)
next
  case (Cons b pre)
  then show ?case by (cases b) (auto simp: branchFires_def split: option.splits)
qed

lemma selectBranch_none:
  "list_all (\<lambda>b. \<not> branchFires h c b) brs \<Longrightarrow> selectBranch h c brs = None"
proof (induction brs)
  case Nil
  then show ?case by simp
next
  case (Cons b brs)
  then show ?case by (cases b) (auto simp: branchFires_def split: option.splits)
qed

definition ifElifElseTemplate :: string where
  "ifElifElseTemplate = ''{% if x > 10 %}A{% elif x > 3 %}B{% else %}C{% endif %}''"

lemma ifElifElse_tree:
  "loadAst [''./templates/t.html'' \<mapsto> ifElifElseTemplate] ''t.html'' =
     Inr [NIf [(Some ''x > 10'', [NText ''A'']), (Some ''x > 3'', [NText ''B'']),
               (None, [NText ''C''])] \<lparr> line = 1, col = 1, index = 0 \<rparr>]"
  by code_simp

text \<open>
  C2. Rendering a conditional node takes the branches in source order and renders the
  body of the first branch whose test is null or evaluates to true, and nothing when no
  branch is taken. With \<open>x = 5\<close> the template
  \<open>{% if x > 10 %}A{% elif x > 3 %}B{% else %}C{% endif %}\<close> renders \<open>B\<close>.
\<close>

theorem conditional_rendering:
  "(list_all (\<lambda>b. \<not> branchFires h c b) pre \<and> branchFires h c br \<longrightarrow>
      renderNode h fs (Suc n) c (NIf (pre @ br # post) p) = renderNodes h fs n (snd br) c)
   \<and> (list_all (\<lambda>b. \<not> branchFires h c b) brs \<longrightarrow>
      renderNode h fs (Suc n) c (NIf brs p) = Inr [])
   \<and> renderTemplate h [''./templates/t.html'' \<mapsto> ifElifElseTemplate] (Suc (Suc (Suc (Suc n))))
        ''t.html'' [''x'' \<mapsto> VNum (Dec 5 0)] = Inr ''B''"
proof (intro conjI impI)
  assume "list_all (\<lambda>b. \<not> branchFires h c b) pre \<and> branchFires h c br"
  then show "renderNode h fs (Suc n) c (NIf (pre @ br # post) p) = renderNodes h fs n (snd br) c"
    by (simp add: selectBranch_first)
next
  assume "list_all (\<lambda>b. \<not> branchFires h c b) brs"
  then show "renderNode h fs (Suc n) c (NIf brs p) = Inr []"
    by (simp add: selectBranch_none)
next
  have t1: "evalTestExpression h [''x'' \<mapsto> VNum (Dec 5 0)] ''x > 10'' = False" by code_simp
  have t2: "evalTestExpression h [''x'' \<mapsto> VNum (Dec 5 0)] ''x > 3'' = True" by code_simp
  show "renderTemplate h [''./templates/t.html'' \<mapsto> ifElifElseTemplate] (Suc (Suc (Suc (Suc n))))
        ''t.html'' [''x'' \<mapsto> VNum (Dec 5 0)] = Inr ''B''"
    by (simp add: renderTemplate_def ifElifElse_tree findExtends_def t1 t2)
qed

theorem conditional_rendering_witness:
  "renderNode noHost Map.empty (Suc (Suc (Suc 0))) [''x'' \<mapsto> VNum (Dec 5 0)]
     (NIf [(Some ''x > 10'', [NText ''A'']), (Some ''x > 3'', [NText ''B'']), (None, [NText ''C''])]
        noPos) = Inr ''B''
   \<and> renderNode noHost Map.empty (Suc (Suc (Suc 0))) [''x'' \<mapsto> VNum (Dec 5 0)]
     (NIf [(Some ''x > 10'', [NText ''A'']), (Some ''x == 3'', [NText ''B''])] noPos) = Inr []"
proof -
  let ?c = "[''x'' \<mapsto> VNum (Dec 5 0)]"
  have t1: "\<not> branchFires noHost ?c (Some ''x > 10'', [NText ''A''])"
    unfolding branchFires_def by code_simp
  have t2: "branchFires noHost ?c (Some ''x > 3'', [NText ''B''])"
    unfolding branchFires_def by code_simp
  have t3: "\<not> branchFires noHost ?c (Some ''x == 3'', [NText ''B''])"
    unfolding branchFires_def by code_simp
  have r: "renderNodes noHost Map.empty (Suc (Suc 0)) [NText ''B''] ?c = Inr ''B''"
    by (simp add: findExtends_def)
  from t1 t2 have
    "renderNode noHost Map.empty (Suc (Suc (Suc 0))) ?c
       (NIf ([(Some ''x > 10'', [NText ''A''])] @ (Some ''x > 3'', [NText ''B'']) # [(None, [NText ''C''])])
          noPos) = renderNodes noHost Map.empty (Suc (Suc 0)) (snd (Some ''x > 3'', [NText ''B''])) ?c"
    using conditional_rendering[THEN conjunct1, of noHost ?c "[(Some ''x > 10'', [NText ''A''])]"
        "(Some ''x > 3'', [NText ''B''])" Map.empty "Suc (Suc 0)" "[(None, [NText ''C''])]" noPos]
    by simp
  moreover from t1 t3 have
    "renderNode noHost Map.empty (Suc (Suc (Suc 0))) ?c
       (NIf [(Some ''x > 10'', [NText ''A'']), (Some ''x == 3'', [NText ''B''])] noPos) = Inr []"
    using conditional_rendering[THEN conjunct2, THEN conjunct1, of noHost ?c
        "[(Some ''x > 10'', [NText ''A'']), (Some ''x == 3'', [NText ''B''])]" Map.empty "Suc (Suc 0)" noPos]
    by simp
  ultimately show ?thesis using r by simp
qed

section \<open>Rendering a loop\<close>















section \<open>The filter pipeline\<close>





lemma loop_plain:
  "list_all (\<lambda>ch. ch \<noteq> CHR 0x5C \<and> ch \<noteq> CHR 0x27 \<and> ch \<noteq> CHR 0x22 \<and> ch \<noteq> sep) s \<Longrightarrow>
     splitUnquotedLoop sep parts buf False False False (s @ rest) =
     splitUnquotedLoop sep parts (buf @ s) False False False rest"
  by (induction s arbitrary: buf) auto







lemma dropWhile_rev_dropWhile:
  "dropWhile P (rev (dropWhile P (rev (dropWhile P xs)))) = rev (dropWhile P (rev (dropWhile P xs)))"
proof (cases "rev (dropWhile P (rev (dropWhile P xs))) = []")
  case True
  then show ?thesis by (simp only: dropWhile.simps)
next
  case False
  let ?t = "dropWhile P xs"
  let ?u = "rev (dropWhile P (rev ?t))"
  have tne: "?t \<noteq> []"
  proof
    assume e: "?t = []"
    have "?u = []" unfolding e by simp
    with False show False by blast
  qed
  have "\<exists>zs. ?t = ?u @ zs"
    by (metis rev_append rev_rev_ident takeWhile_dropWhile_id)
  then obtain zs where z: "?t = ?u @ zs" by blast
  with False have "hd ?u = hd ?t" by (metis hd_append2)
  moreover from tne have "\<not> P (hd ?t)" by (rule hd_dropWhile)
  ultimately have "\<not> P (hd ?u)" by simp
  with False show ?thesis by (cases ?u) auto
qed

lemma trim_trim: "trim (trim s) = trim s"
  unfolding trim_def by (simp add: dropWhile_rev_dropWhile)

lemma getValueFromExprE_trim: "getValueFromExprE h c (trim e) = getValueFromExprE h c e"
  by (simp add: getValueFromExprE.simps[of h c "trim e"] getValueFromExprE.simps[of h c e] trim_trim)

lemma getValueFromExpr_trim: "getValueFromExpr h c (trim e) = getValueFromExpr h c e"
  by (simp add: getValueFromExpr_def getValueFromExprE_trim)








section \<open>The argument of include and extends\<close>

lemma starL_to_last:
  assumes k2: "\<And>p' y z zs cs'. k (p', y # z # zs, cs') = None"
    and k0: "\<And>p' cs'. k (p', [], cs') = None"
    and c: "list_all c xs"
  shows "starL c k p cs (xs @ [q]) = k (p + length xs, [q], cs)"
  using c
proof (induction xs arbitrary: p)
  case Nil
  show ?case by (cases "k (p, [q], cs)") (simp_all add: k0)
next
  case (Cons x xs)
  have "k (p, x # xs @ [q], cs) = None"
    by (cases xs) (simp_all add: k2)
  with Cons show ?case by simp
qed

lemma quoted_tail_fails:
  "rmatch (Cls isQuote) (rmatch Eol Some) (setCap i st0 (p', y # z # zs, cs')) = None"
  "rmatch (Cls isQuote) (rmatch Eol Some) (setCap i st0 (p', [], cs')) = None"
  by (cases st0, simp add: setCap_def)+

lemma rmatch_Seq_fun: "rmatch (Seq a b) k = rmatch a (rmatch b k)"
  by (rule ext) simp

lemma rmatch_Bol_start: "rmatch Bol k (0, s, cs) = k (0, s, cs)"
  by simp

lemma rmatch_Lit_prefix: "rmatch (Lit l) k (p, l @ rest, cs) = k (p + length l, rest, cs)"
  by (simp add: startsWith_def)

lemma rmatch_Cls_head: "c x \<Longrightarrow> rmatch (Cls c) k (p, x # xs, cs) = k (Suc p, xs, cs)"
  by simp

lemma rmatch_Plus_greedy_one:
  "c x \<Longrightarrow> \<not> c y \<Longrightarrow> rmatch (Plus True c) k (p, x # y # ys, cs) = k (Suc p, y # ys, cs)"
  by (simp add: star_def)

lemma rmatch_Grp_Plus_lazy:
  "c x \<Longrightarrow> rmatch (Grp i (Plus False c)) k (p, x # xs, cs) =
     starL c (\<lambda>st'. k (setCap i (p, x # xs, cs) st')) (Suc p) cs xs"
  by (simp add: star_def)

lemma quoted_argument_match:
  assumes q1: "isQuote q1" and q2: "isQuote q2" and path: "path \<noteq> []"
  shows "\<exists>cs. reMatch (seqs [Bol, Lit kw, Plus True isSpace, Cls isQuote,
                         Grp 1 (Plus False isAny), Cls isQuote, Eol])
            (kw @ '' '' @ q1 # path @ [q2]) = Some cs \<and> cap cs 1 = path"
proof -
  obtain x xs where p: "path = x # xs" using path by (cases path) auto
  define K where "K = rmatch (Cls isQuote) (rmatch Eol Some)"
  let ?st0 = "(Suc (Suc (length kw)), x # xs @ [q2], Map.empty) :: mstate"
  let ?s = "kw @ '' '' @ q1 # path @ [q2]"
  from q1 have ns: "\<not> isSpace q1" by (auto simp: isQuote_def isSpace_def)
  have sp: "isSpace CHR '' ''" by (simp add: isSpace_def)
  have shape: "?s = kw @ (CHR '' '' # q1 # (x # xs @ [q2]))" by (simp add: p)
  have "rmatch (seqs [Bol, Lit kw, Plus True isSpace, Cls isQuote,
                      Grp 1 (Plus False isAny), Cls isQuote, Eol]) Some (0, ?s, Map.empty) =
        rmatch Bol (rmatch (Lit kw) (rmatch (Plus True isSpace) (rmatch (Cls isQuote)
          (rmatch (Grp 1 (Plus False isAny)) K)))) (0, ?s, Map.empty)"
    by (simp only: seqs.simps rmatch_Seq_fun K_def)
  also have "\<dots> = rmatch (Grp 1 (Plus False isAny)) K ?st0"
    unfolding shape
    by (simp only: rmatch_Bol_start rmatch_Lit_prefix
          rmatch_Plus_greedy_one[of isSpace "CHR '' ''" q1, OF sp ns]
          rmatch_Cls_head[of isQuote q1, OF q1]) simp
  also have "\<dots> = starL isAny (\<lambda>st'. K (setCap 1 ?st0 st')) (Suc (Suc (Suc (length kw))))
                     Map.empty (xs @ [q2])"
    by (rule rmatch_Grp_Plus_lazy) (simp add: isAny_def)
  also have "\<dots> = K (setCap 1 ?st0 (Suc (Suc (Suc (length kw))) + length xs, [q2], Map.empty))"
  proof (rule starL_to_last)
    show "\<And>p' y z zs cs'. K (setCap 1 ?st0 (p', y # z # zs, cs')) = None"
      unfolding K_def by (rule quoted_tail_fails)
    show "\<And>p' cs'. K (setCap 1 ?st0 (p', [], cs')) = None"
      unfolding K_def by (rule quoted_tail_fails)
    show "list_all isAny xs" by (simp add: list_all_iff isAny_def)
  qed
  also have "\<dots> = Some (Suc (Suc (Suc (Suc (length kw + length xs)))), [], [1 \<mapsto> x # xs])"
    using q2 by (simp add: K_def setCap_def)
  finally have m: "rmatch (seqs [Bol, Lit kw, Plus True isSpace, Cls isQuote,
                      Grp 1 (Plus False isAny), Cls isQuote, Eol]) Some (0, ?s, Map.empty) =
      Some (Suc (Suc (Suc (Suc (length kw + length xs)))), [], [1 \<mapsto> x # xs])" .
  obtain y ys where s: "?s = y # ys"
    by (cases ?s) auto
  show ?thesis
    unfolding reMatch_def s searchFrom.simps
    using m[unfolded s] by (simp add: cap_def p)
qed

lemma loop_parts_append:
  "splitUnquotedLoop sep (ps @ parts) buf a b e s = ps @ splitUnquotedLoop sep parts buf a b e s"
  by (induction s arbitrary: parts buf a b e) simp_all

lemma loop_parts:
  "splitUnquotedLoop sep parts buf a b e s = parts @ splitUnquotedLoop sep [] buf a b e s"
  using loop_parts_append[of sep parts "[]"] by simp

lemma tagName_keyword:
  assumes "list_all (\<lambda>ch. ch \<noteq> CHR 0x5C \<and> ch \<noteq> CHR 0x27 \<and> ch \<noteq> CHR 0x22 \<and> ch \<noteq> CHR '' '') kw"
  shows "tagName (kw @ '' '' @ rest) = trim kw"
proof -
  have "splitUnquotedLoop CHR '' '' [] [] False False False (kw @ '' '' @ rest) =
      splitUnquotedLoop CHR '' '' [] ([] @ kw) False False False ('' '' @ rest)"
    using assms by (rule loop_plain)
  also have "\<dots> = splitUnquotedLoop CHR '' '' [kw] [] False False False rest" by simp
  also have "\<dots> = [kw] @ splitUnquotedLoop CHR '' '' [] [] False False False rest"
    by (rule loop_parts)
  finally show ?thesis by (simp add: tagName_def splitUnquoted_def)
qed

lemma parse_include_token:
  assumes "isQuote q1" and "isQuote q2" and "path \<noteq> []"
  shows "parse [mkToken TTag (''include '' @ q1 # path @ [q2]) p] = Inr [NInclude path p]"
proof -
  have n: "tagName (''include'' @ '' '' @ q1 # path @ [q2]) = trim ''include''"
    by (rule tagName_keyword) simp
  have t: "trim ''include'' = ''include''" by code_simp
  from quoted_argument_match[OF assms, of "''include''"] obtain cs where
    m: "reMatch includeRe (''include'' @ '' '' @ q1 # path @ [q2]) = Some cs" and c: "cap cs 1 = path"
    unfolding includeRe_def by blast
  have "parseTag (mkToken TTag (''include '' @ q1 # path @ [q2]) p) ([], []) =
      Inr ([NInclude path p], [])"
    using n m c by (simp add: parseTag_def mkToken_def t)
  then show ?thesis by (simp add: parse_def parseToken_def mkToken_def)
qed

lemma parse_extends_token:
  assumes "isQuote q1" and "isQuote q2" and "path \<noteq> []"
  shows "parse [mkToken TTag (''extends '' @ q1 # path @ [q2]) p] = Inr [NExtends path p]"
proof -
  have n: "tagName (''extends'' @ '' '' @ q1 # path @ [q2]) = trim ''extends''"
    by (rule tagName_keyword) simp
  have t: "trim ''extends'' = ''extends''" by code_simp
  from quoted_argument_match[OF assms, of "''extends''"] obtain cs where
    m: "reMatch extendsRe (''extends'' @ '' '' @ q1 # path @ [q2]) = Some cs" and c: "cap cs 1 = path"
    unfolding extendsRe_def by blast
  have "parseTag (mkToken TTag (''extends '' @ q1 # path @ [q2]) p) ([], []) =
      Inr ([NExtends path p], [])"
    using n m c by (simp add: parseTag_def mkToken_def t)
  then show ?thesis by (simp add: parse_def parseToken_def mkToken_def)
qed

text \<open>
  C10. The argument pattern of \<open>include\<close> and \<open>extends\<close> accepts any mix of single and
  double quotes at the two ends: a tag whose path opens with one quote character and
  closes with the other parses, to a node whose path is the text between the quotes.
  So \<open>{% include "partial.html' %}\<close> is no parse error.
\<close>

theorem mismatched_quotes_accepted:
  \<open>(isQuote q1 \<and> isQuote q2 \<and> path \<noteq> [] \<longrightarrow>
      parse [mkToken TTag (''include '' @ q1 # path @ [q2]) p] = Inr [NInclude path p]
      \<and> parse [mkToken TTag (''extends '' @ q1 # path @ [q2]) p] = Inr [NExtends path p])
   \<and> parse (lex ''{% include "partial.html' %}'') =
        Inr [NInclude ''partial.html'' \<lparr>line = 1, col = 1, index = 0\<rparr>]
   \<and> parse (lex ''{% extends 'base.html" %}'') =
        Inr [NExtends ''base.html'' \<lparr>line = 1, col = 1, index = 0\<rparr>]\<close>
proof (intro conjI impI)
  assume a: "isQuote q1 \<and> isQuote q2 \<and> path \<noteq> []"
  then show "parse [mkToken TTag (''include '' @ q1 # path @ [q2]) p] = Inr [NInclude path p]"
    by (intro parse_include_token) simp_all
  from a show "parse [mkToken TTag (''extends '' @ q1 # path @ [q2]) p] = Inr [NExtends path p]"
    by (intro parse_extends_token) simp_all
next
  show \<open>parse (lex ''{% include "partial.html' %}'') =
        Inr [NInclude ''partial.html'' \<lparr>line = 1, col = 1, index = 0\<rparr>]\<close>
    by code_simp
next
  show \<open>parse (lex ''{% extends 'base.html" %}'') =
        Inr [NExtends ''base.html'' \<lparr>line = 1, col = 1, index = 0\<rparr>]\<close>
    by code_simp
qed

theorem mismatched_quotes_accepted_witness:
  \<open>parse [mkToken TTag (''include "a'b'' @ [CHR 0x27]) noPos] = Inr [NInclude ''a'b'' noPos]
   \<and> parse [mkToken TTag ''extends 'base.html"'' noPos] = Inr [NExtends ''base.html'' noPos]\<close>
proof -
  have q: "isQuote (CHR 0x22) \<and> isQuote (CHR 0x27) \<and> ''a'' @ [CHR 0x27] @ ''b'' \<noteq> []"
    by (simp add: isQuote_def)
  have q': "isQuote (CHR 0x27) \<and> isQuote (CHR 0x22) \<and> ''base.html'' \<noteq> []"
    by (simp add: isQuote_def)
  from mismatched_quotes_accepted[where ?q1.0 = "CHR 0x22" and ?q2.0 = "CHR 0x27"
      and path = "''a'' @ [CHR 0x27] @ ''b''" and p = noPos, THEN conjunct1] q
  have 1: \<open>parse [mkToken TTag (''include "a'b'' @ [CHR 0x27]) noPos] = Inr [NInclude ''a'b'' noPos]\<close>
    by simp
  from mismatched_quotes_accepted[where ?q1.0 = "CHR 0x27" and ?q2.0 = "CHR 0x22"
      and path = "''base.html''" and p = noPos, THEN conjunct1] q'
  have 2: \<open>parse [mkToken TTag ''extends 'base.html"'' noPos] = Inr [NExtends ''base.html'' noPos]\<close>
    by simp
  from 1 2 show ?thesis by simp
qed

section \<open>Unclosed tags\<close>

definition opensFrame :: "token \<Rightarrow> bool" where
  \<comment> \<open>A tag token that can push a frame.\<close>
  "opensFrame t = (ttype t = TTag \<and> tagName (content t) \<in> set [''if'', ''for'', ''block''])"

lemma parseLoop_append:
  "parseLoop (xs @ ys) st =
     (case parseLoop xs st of Inl e \<Rightarrow> Inl e | Inr st' \<Rightarrow> parseLoop ys st')"
  by (induction xs arbitrary: st) (auto split: sum.splits)

lemma pushNode_positions:
  "pushNode n (out, stack) = Inr (out', stack') \<Longrightarrow> map framePos stack' = map framePos stack"
  by (cases "(n, (out, stack))" rule: pushNode.cases) (auto split: if_splits)

text \<open>
  What one token does to the positions of the open frames: nothing, a push of the
  position of an opening tag, or a pop.
\<close>

lemma parseTag_positions:
  assumes "parseTag t (out, stack) = Inr (out', stack')"
  shows "map framePos stack' = map framePos stack
       \<or> (tagName (content t) \<in> set [''if'', ''for'', ''block'']
            \<and> map framePos stack' = pos t # map framePos stack)
       \<or> (\<exists>p. map framePos stack = p # map framePos stack')"
proof -
  let ?tag = "tagName (content t)"
  consider "?tag = ''if''" | "?tag = ''elif'' \<or> ?tag = ''else''" | "?tag = ''endif''"
    | "?tag = ''for''" | "?tag = ''endfor''" | "?tag = ''include''" | "?tag = ''block''"
    | "?tag = ''endblock''" | "?tag = ''extends''"
    | "?tag \<notin> set [''if'', ''elif'', ''else'', ''endif'', ''for'', ''endfor'', ''include'',
                     ''block'', ''endblock'', ''extends'']"
    by auto
  then show ?thesis
  proof cases
    case 1
    with assms show ?thesis by (auto simp: parseTag_def Let_def)
  next
    case 2
    with assms show ?thesis
      by (auto simp: parseTag_def Let_def split: list.splits frame.splits if_splits)
  next
    case 3
    with assms show ?thesis
      by (auto simp: parseTag_def Let_def split: list.splits frame.splits dest: pushNode_positions)
  next
    case 4
    with assms show ?thesis
      by (auto simp: parseTag_def Let_def split: option.splits)
  next
    case 5
    with assms show ?thesis
      by (auto simp: parseTag_def Let_def split: list.splits frame.splits dest: pushNode_positions)
  next
    case 6
    with assms show ?thesis
      by (auto simp: parseTag_def Let_def split: option.splits dest: pushNode_positions)
  next
    case 7
    with assms show ?thesis
      by (auto simp: parseTag_def Let_def split: option.splits)
  next
    case 8
    with assms show ?thesis
      by (auto simp: parseTag_def Let_def split: list.splits frame.splits dest: pushNode_positions)
  next
    case 9
    with assms show ?thesis
      by (auto simp: parseTag_def Let_def split: option.splits dest: pushNode_positions)
  next
    case 10
    with assms have "pushNode (NText (''{% '' @ content t @ '' %}'')) (out, stack) = Inr (out', stack')"
      by (simp add: parseTag_def Let_def)
    then show ?thesis by (auto dest: pushNode_positions)
  qed
qed

lemma parseToken_positions:
  assumes "parseToken t (out, stack) = Inr (out', stack')"
  shows "map framePos stack' = map framePos stack
       \<or> (opensFrame t \<and> map framePos stack' = pos t # map framePos stack)
       \<or> (\<exists>p. map framePos stack = p # map framePos stack')"
proof (cases "ttype t")
  case TText
  with assms show ?thesis by (auto simp: parseToken_def dest: pushNode_positions)
next
  case TVar
  with assms show ?thesis by (auto simp: parseToken_def dest: pushNode_positions)
next
  case TTag
  with assms have "parseTag t (out, stack) = Inr (out', stack')" by (simp add: parseToken_def)
  from parseTag_positions[OF this] TTag show ?thesis by (auto simp: opensFrame_def)
next
  case TComment
  with assms show ?thesis by (auto simp: parseToken_def)
qed

text \<open>
  \<open>openedAt toks ps\<close>: every position of \<open>ps\<close> is the position of an opening tag of
  \<open>toks\<close>, and that tag was read on a stack whose frames are those below it in \<open>ps\<close>.
\<close>

fun openedAt :: "token list \<Rightarrow> tokenPos list \<Rightarrow> bool" where
  "openedAt toks [] = True"
| "openedAt toks (p # ps) =
     ((\<exists>pre t post out' fs'. toks = pre @ t # post \<and> opensFrame t \<and> pos t = p
          \<and> parseLoop pre ([], []) = Inr (out', fs') \<and> map framePos fs' = ps)
      \<and> openedAt toks ps)"

lemma openedAt_snoc: "openedAt toks ps \<Longrightarrow> openedAt (toks @ [t]) ps"
proof (induction ps)
  case Nil
  show ?case by simp
next
  case (Cons p ps)
  then obtain pre t0 post out' fs' where
    w: "toks = pre @ t0 # post" "opensFrame t0" "pos t0 = p"
       "parseLoop pre ([], []) = Inr (out', fs')" "map framePos fs' = ps"
    and r: "openedAt toks ps" by auto
  from w have "toks @ [t] = pre @ t0 # (post @ [t])" by simp
  with w r Cons.IH show ?case by (simp only: openedAt.simps) blast
qed

lemma parseLoop_openedAt:
  "parseLoop toks ([], []) = Inr (out, stack) \<Longrightarrow> openedAt toks (map framePos stack)"
proof (induction toks arbitrary: out stack rule: rev_induct)
  case Nil
  then show ?case by simp
next
  case (snoc t toks)
  from snoc.prems obtain out0 stack0 where
    l: "parseLoop toks ([], []) = Inr (out0, stack0)" and
    s: "parseToken t (out0, stack0) = Inr (out, stack)"
    by (auto simp: parseLoop_append split: sum.splits)
  from snoc.IH[OF l] have i: "openedAt (toks @ [t]) (map framePos stack0)" by (rule openedAt_snoc)
  from parseToken_positions[OF s] consider
      "map framePos stack = map framePos stack0"
    | "opensFrame t" "map framePos stack = pos t # map framePos stack0"
    | p where "map framePos stack0 = p # map framePos stack" by auto
  then show ?case
  proof cases
    case 1
    with i show ?thesis by simp
  next
    case 2
    have "toks @ [t] = toks @ t # []" by simp
    with 2 l i show ?thesis by (simp only: openedAt.simps) blast
  next
    case 3
    with i show ?thesis by simp
  qed
qed

definition unclosedTemplate :: string where
  "unclosedTemplate = ''ab'' @ [CHR 0x0A] @ ''  {% if x %}hello''"

text \<open>
  C9. When the tokens are exhausted with a frame still open, \<open>parse\<close> fails with the
  unclosed-tag error at the line and column of the innermost open frame, which is the
  position of the opening tag that pushed it; \<open>load\<close> does not catch the error. So a
  template with an \<open>{% if x %}\<close> that is never closed fails to load with the position of
  that tag.
\<close>

theorem unclosed_tag_error:
  "(parseLoop toks ([], []) = Inr (out, f # fs) \<longrightarrow>
      parse toks = Inl (Unclosed (line (framePos f)) (col (framePos f)))
      \<and> (\<exists>pre t post out' fs'. toks = pre @ t # post \<and> opensFrame t \<and> pos t = framePos f
            \<and> parseLoop pre ([], []) = Inr (out', fs')
            \<and> map framePos fs' = map framePos fs))
   \<and> (cache ld rel = None \<and> files (joinPath [dir ld, rel]) = Some s
        \<and> parseLoop (lex s) ([], []) = Inr (out, f # fs) \<longrightarrow>
      load files ld rel = Inl (ParseError (Unclosed (line (framePos f)) (col (framePos f)))))
   \<and> load [''./templates/t.html'' \<mapsto> unclosedTemplate] (newLoader TEMPLATES_DIR) ''t.html'' =
        Inl (ParseError (Unclosed 2 3))
   \<and> errorMessage (Unclosed 2 3) = ''Unclosed tag at 2:3''"
proof (intro conjI impI)
  assume l: "parseLoop toks ([], []) = Inr (out, f # fs)"
  then show "parse toks = Inl (Unclosed (line (framePos f)) (col (framePos f)))"
    by (simp add: parse_def)
  from parseLoop_openedAt[OF l]
  show "\<exists>pre t post out' fs'. toks = pre @ t # post \<and> opensFrame t \<and> pos t = framePos f
            \<and> parseLoop pre ([], []) = Inr (out', fs')
            \<and> map framePos fs' = map framePos fs"
    by simp
next
  assume "cache ld rel = None \<and> files (joinPath [dir ld, rel]) = Some s
        \<and> parseLoop (lex s) ([], []) = Inr (out, f # fs)"
  then show "load files ld rel = Inl (ParseError (Unclosed (line (framePos f)) (col (framePos f))))"
    by (simp add: load_def readFile_def parse_def)
next
  have p: "parse (lex unclosedTemplate) = Inl (Unclosed 2 3)" by code_simp
  have j: "joinPath [TEMPLATES_DIR, ''t.html''] = ''./templates/t.html''" by code_simp
  show "load [''./templates/t.html'' \<mapsto> unclosedTemplate] (newLoader TEMPLATES_DIR) ''t.html'' =
        Inl (ParseError (Unclosed 2 3))"
    by (simp add: load_def newLoader_def readFile_def p j)
next
  show "errorMessage (Unclosed 2 3) = ''Unclosed tag at 2:3''"
    by code_simp
qed

theorem unclosed_tag_error_witness:
  "parse (lex unclosedTemplate) = Inl (Unclosed 2 3)
   \<and> load [''./templates/u.html'' \<mapsto> unclosedTemplate] (newLoader ''./templates'') ''u.html'' =
       Inl (ParseError (Unclosed 2 3))"
proof -
  let ?f = "IfFrame [] [(Some ''x'', [NText ''hello''])] 0 \<lparr>line = 2, col = 3, index = 5\<rparr>"
  let ?out = "[NText (''ab'' @ [CHR 0x0A] @ ''  '')]"
  have l: "parseLoop (lex unclosedTemplate) ([], []) = Inr (?out, [?f])" by code_simp
  have j: "joinPath [''./templates'', ''u.html''] = ''./templates/u.html''" by code_simp
  note u = unclosed_tag_error[where f = ?f and fs = "[]" and out = ?out]
  from u[where toks = "lex unclosedTemplate", THEN conjunct1] l
  have 1: "parse (lex unclosedTemplate) = Inl (Unclosed 2 3)" by simp
  from u[where ld = "newLoader ''./templates''" and rel = "''u.html''" and s = unclosedTemplate
      and files = "[''./templates/u.html'' \<mapsto> unclosedTemplate]", THEN conjunct2, THEN conjunct1] l j
  have 2: "load [''./templates/u.html'' \<mapsto> unclosedTemplate] (newLoader ''./templates'') ''u.html'' =
       Inl (ParseError (Unclosed 2 3))"
    by (simp add: newLoader_def)
  from 1 2 show ?thesis by simp
qed

section \<open>The branches of a conditional\<close>

definition elseOnlyLast :: "(string option \<times> node list) list \<Rightarrow> bool" where
  \<comment> \<open>At most one branch has a null test, and it is the last one: no branch before the
      last has a null test.\<close>
  "elseOnlyLast brs = list_all (\<lambda>b. fst b \<noteq> None) (butlast brs)"

definition ifHead :: "(string option \<times> node list) list \<Rightarrow> bool" where
  \<comment> \<open>There is a first branch, and its test is not null.\<close>
  "ifHead brs = (case brs of [] \<Rightarrow> False | b # bs \<Rightarrow> fst b \<noteq> None)"

fun ifHeadTree :: "node \<Rightarrow> bool" where
  \<comment> \<open>Every conditional of the tree has a first branch with a test.\<close>
  "ifHeadTree (NIf brs p) = (ifHead brs \<and> list_all (\<lambda>b. list_all ifHeadTree (snd b)) brs)"
| "ifHeadTree (NFor vs it body p) = list_all ifHeadTree body"
| "ifHeadTree (NBlock name body p) = list_all ifHeadTree body"
| "ifHeadTree _ = True"

fun ifHeadFrame :: "frame \<Rightarrow> bool" where
  "ifHeadFrame (IfFrame ns brs cur p) = (ifHead brs \<and> list_all (\<lambda>b. list_all ifHeadTree (snd b)) brs)"
| "ifHeadFrame (ForFrame ns vs it p) = list_all ifHeadTree ns"
| "ifHeadFrame (BlockFrame ns name p) = list_all ifHeadTree ns"

definition ifHeadState :: "pstate \<Rightarrow> bool" where
  "ifHeadState st = (list_all ifHeadTree (fst st) \<and> list_all ifHeadFrame (snd st))"

lemma ifHead_update:
  "ifHead brs \<Longrightarrow> ifHead (brs[i := (fst (brs ! i), b)])"
  by (cases brs; cases i) (auto simp: ifHead_def)

lemma ifHead_append: "ifHead brs \<Longrightarrow> ifHead (brs @ bs)"
  by (cases brs) (auto simp: ifHead_def)

lemma list_all_update: "list_all P xs \<Longrightarrow> P x \<Longrightarrow> list_all P (xs[i := x])"
  by (induction xs arbitrary: i) (auto split: nat.splits)

lemma bodies_update:
  assumes "list_all (\<lambda>b. list_all ifHeadTree (snd b)) brs" and "ifHeadTree n" and "i < length brs"
  shows "list_all (\<lambda>b. list_all ifHeadTree (snd b)) (brs[i := (fst (brs ! i), snd (brs ! i) @ [n])])"
proof -
  from assms(1,3) have "list_all ifHeadTree (snd (brs ! i))" by (simp add: list_all_length)
  with assms(2) have "list_all ifHeadTree (snd (fst (brs ! i), snd (brs ! i) @ [n]))" by simp
  with assms(1) show ?thesis by (intro list_all_update)
qed

lemma pushNode_ifHead:
  assumes "pushNode n st = Inr st'" and "ifHeadState st" and "ifHeadTree n"
  shows "ifHeadState st'"
  using assms
  by (cases "(n, st)" rule: pushNode.cases)
     (auto simp: ifHeadState_def ifHead_update bodies_update split: if_splits)

lemma parseTag_if:
  "tagName (content t) = ''if'' \<Longrightarrow>
     parseTag t (out, stack) =
       Inr (out, IfFrame [] [(Some (trim (drop 2 (content t))), [])] 0 (pos t) # stack)"
  by (simp add: parseTag_def Let_def)

lemma parseTag_else:
  "tagName (content t) = ''else'' \<Longrightarrow>
     parseTag t (out, IfFrame ns brs cur p # fs) =
       Inr (out, IfFrame ns (brs @ [(None, [])]) (length brs) p # fs)"
  by (simp add: parseTag_def Let_def)

lemma parseTag_elif:
  "tagName (content t) = ''elif'' \<Longrightarrow>
     parseTag t (out, IfFrame ns brs cur p # fs) =
       Inr (out, IfFrame ns (brs @ [(Some (trim (drop 4 (content t))), [])]) (length brs) p # fs)"
  by (simp add: parseTag_def Let_def)

lemma parseTag_branch_top:
  assumes "tagName (content t) = ''elif'' \<or> tagName (content t) = ''else''"
    and "parseTag t (out, stack) = Inr st'"
  shows "\<exists>ns brs cur p fs. stack = IfFrame ns brs cur p # fs"
proof (cases stack)
  case Nil
  with assms show ?thesis by (auto simp: parseTag_def Let_def)
next
  case (Cons f fs)
  with assms show ?thesis by (cases f) (auto simp: parseTag_def Let_def)
qed

lemma parseTag_endif:
  assumes "tagName (content t) = ''endif''" and "parseTag t (out, stack) = Inr st'"
  shows "\<exists>ns brs cur p fs. stack = IfFrame ns brs cur p # fs
           \<and> pushNode (NIf brs p) (out, fs) = Inr st'"
proof (cases stack)
  case Nil
  with assms show ?thesis by (simp add: parseTag_def Let_def)
next
  case (Cons f fs)
  with assms show ?thesis by (cases f) (simp_all add: parseTag_def Let_def)
qed

lemma parseTag_endfor:
  assumes "tagName (content t) = ''endfor''" and "parseTag t (out, stack) = Inr st'"
  shows "\<exists>ns vs it p fs. stack = ForFrame ns vs it p # fs
           \<and> pushNode (NFor vs it ns p) (out, fs) = Inr st'"
proof (cases stack)
  case Nil
  with assms show ?thesis by (simp add: parseTag_def Let_def)
next
  case (Cons f fs)
  with assms show ?thesis by (cases f) (simp_all add: parseTag_def Let_def)
qed

lemma parseTag_endblock:
  assumes "tagName (content t) = ''endblock''" and "parseTag t (out, stack) = Inr st'"
  shows "\<exists>ns name p fs. stack = BlockFrame ns name p # fs
           \<and> pushNode (NBlock name ns p) (out, fs) = Inr st'"
proof (cases stack)
  case Nil
  with assms show ?thesis by (simp add: parseTag_def Let_def)
next
  case (Cons f fs)
  with assms show ?thesis by (cases f) (simp_all add: parseTag_def Let_def)
qed

lemma parseTag_for:
  assumes "tagName (content t) = ''for''" and "parseTag t (out, stack) = Inr st'"
  shows "\<exists>vs it. st' = (out, ForFrame [] vs it (pos t) # stack)"
  using assms by (simp add: parseTag_def Let_def split: option.splits) blast

lemma parseTag_block:
  assumes "tagName (content t) = ''block''" and "parseTag t (out, stack) = Inr st'"
  shows "\<exists>name. st' = (out, BlockFrame [] name (pos t) # stack)"
  using assms by (simp add: parseTag_def Let_def split: option.splits) blast

lemma parseTag_include:
  assumes "tagName (content t) = ''include''" and "parseTag t st = Inr st'"
  shows "\<exists>path. pushNode (NInclude path (pos t)) st = Inr st'"
  using assms by (cases st) (simp add: parseTag_def Let_def split: option.splits, blast)

lemma parseTag_extends:
  assumes "tagName (content t) = ''extends''" and "parseTag t st = Inr st'"
  shows "\<exists>path. pushNode (NExtends path (pos t)) st = Inr st'"
  using assms by (cases st) (simp add: parseTag_def Let_def split: option.splits, blast)

lemma parseTag_other:
  assumes "tagName (content t) \<notin> set [''if'', ''elif'', ''else'', ''endif'', ''for'', ''endfor'',
              ''include'', ''block'', ''endblock'', ''extends'']"
  shows "parseTag t st = pushNode (NText (''{% '' @ content t @ '' %}'')) st"
  using assms by (cases st) (simp add: parseTag_def Let_def)

lemma parseTag_ifHead:
  assumes r: "parseTag t st = Inr st'" and i: "ifHeadState st"
  shows "ifHeadState st'"
proof -
  obtain out stack where st: "st = (out, stack)" by (cases st)
  let ?tag = "tagName (content t)"
  consider "?tag = ''if''" | "?tag = ''elif''" | "?tag = ''else''" | "?tag = ''endif''"
    | "?tag = ''for''" | "?tag = ''endfor''" | "?tag = ''include''" | "?tag = ''block''"
    | "?tag = ''endblock''" | "?tag = ''extends''"
    | "?tag \<noteq> ''if''" "?tag \<noteq> ''elif''" "?tag \<noteq> ''else''" "?tag \<noteq> ''endif''"
      "?tag \<noteq> ''for''" "?tag \<noteq> ''endfor''" "?tag \<noteq> ''include''" "?tag \<noteq> ''block''"
      "?tag \<noteq> ''endblock''" "?tag \<noteq> ''extends''"
    by blast
  then show ?thesis
  proof cases
    case 1
    from r i show ?thesis
      unfolding st parseTag_if[OF 1] by (auto simp: ifHeadState_def ifHead_def)
  next
    case 2
    with r st obtain ns brs cur p fs where s: "stack = IfFrame ns brs cur p # fs"
      using parseTag_branch_top[of t out stack st'] by auto
    from r i show ?thesis
      unfolding st s parseTag_elif[OF 2] by (auto simp: ifHeadState_def ifHead_append)
  next
    case 3
    with r st obtain ns brs cur p fs where s: "stack = IfFrame ns brs cur p # fs"
      using parseTag_branch_top[of t out stack st'] by auto
    from r i show ?thesis
      unfolding st s parseTag_else[OF 3] by (auto simp: ifHeadState_def ifHead_append)
  next
    case 4
    from parseTag_endif[OF 4 r[unfolded st]] obtain ns brs cur p fs where
      s: "stack = IfFrame ns brs cur p # fs" and n: "pushNode (NIf brs p) (out, fs) = Inr st'"
      by blast
    from i st s have "ifHeadState (out, fs)" "ifHeadTree (NIf brs p)"
      by (auto simp: ifHeadState_def)
    with n show ?thesis by (rule pushNode_ifHead)
  next
    case 5
    from parseTag_for[OF 5 r[unfolded st]] i st show ?thesis
      by (auto simp: ifHeadState_def)
  next
    case 6
    from parseTag_endfor[OF 6 r[unfolded st]] obtain ns vs it p fs where
      s: "stack = ForFrame ns vs it p # fs" and n: "pushNode (NFor vs it ns p) (out, fs) = Inr st'"
      by blast
    from i st s have "ifHeadState (out, fs)" "ifHeadTree (NFor vs it ns p)"
      by (auto simp: ifHeadState_def)
    with n show ?thesis by (rule pushNode_ifHead)
  next
    case 7
    from parseTag_include[OF 7 r] obtain path where
      "pushNode (NInclude path (pos t)) st = Inr st'" by blast
    then show ?thesis using i by (rule pushNode_ifHead) simp
  next
    case 8
    from parseTag_block[OF 8 r[unfolded st]] i st show ?thesis
      by (auto simp: ifHeadState_def)
  next
    case 9
    from parseTag_endblock[OF 9 r[unfolded st]] obtain ns name p fs where
      s: "stack = BlockFrame ns name p # fs" and n: "pushNode (NBlock name ns p) (out, fs) = Inr st'"
      by blast
    from i st s have "ifHeadState (out, fs)" "ifHeadTree (NBlock name ns p)"
      by (auto simp: ifHeadState_def)
    with n show ?thesis by (rule pushNode_ifHead)
  next
    case 10
    from parseTag_extends[OF 10 r] obtain path where
      "pushNode (NExtends path (pos t)) st = Inr st'" by blast
    then show ?thesis using i by (rule pushNode_ifHead) simp
  next
    case 11
    then have o: "?tag \<notin> set [''if'', ''elif'', ''else'', ''endif'', ''for'', ''endfor'', ''include'',
                     ''block'', ''endblock'', ''extends'']"
      by simp
    from r have "pushNode (NText (''{% '' @ content t @ '' %}'')) st = Inr st'"
      unfolding parseTag_other[OF o] .
    then show ?thesis using i by (rule pushNode_ifHead) simp
  qed
qed

lemma parseToken_ifHead:
  assumes r: "parseToken t st = Inr st'" and i: "ifHeadState st"
  shows "ifHeadState st'"
proof (cases "ttype t")
  case TText
  with r have "pushNode (NText (content t)) st = Inr st'" by (simp add: parseToken_def)
  then show ?thesis using i by (rule pushNode_ifHead) simp
next
  case TVar
  with r have "pushNode (NVar (content t) (pos t)) st = Inr st'" by (simp add: parseToken_def)
  then show ?thesis using i by (rule pushNode_ifHead) simp
next
  case TTag
  with r have "parseTag t st = Inr st'" by (simp add: parseToken_def)
  then show ?thesis using i by (rule parseTag_ifHead)
next
  case TComment
  with r i show ?thesis by (simp add: parseToken_def)
qed

lemma parseLoop_ifHead:
  "parseLoop toks st = Inr st' \<Longrightarrow> ifHeadState st \<Longrightarrow> ifHeadState st'"
proof (induction toks arbitrary: st)
  case Nil
  then show ?case by simp
next
  case (Cons t toks)
  then obtain st1 where 1: "parseToken t st = Inr st1" and 2: "parseLoop toks st1 = Inr st'"
    by (auto split: sum.splits)
  from parseToken_ifHead[OF 1 Cons.prems(2)] Cons.IH[OF 2] show ?case by simp
qed

definition elseThenElifTemplate :: string where
  "elseThenElifTemplate = ''{% if a %}A{% else %}B{% elif c %}C{% else %}D{% endif %}''"

text \<open>
  C8, as stated, fails: \<open>parse\<close> accepts an \<open>elif\<close> and a second \<open>else\<close> after an
  \<open>else\<close>, and the conditional it builds has two branches with a null test, the first
  of them not last.
\<close>

theorem else_not_last_counterexample:
  "parse (lex elseThenElifTemplate) =
     Inr [NIf [(Some ''a'', [NText ''A'']), (None, [NText ''B'']),
               (Some ''c'', [NText ''C'']), (None, [NText ''D''])]
            \<lparr>line = 1, col = 1, index = 0\<rparr>]
   \<and> \<not> elseOnlyLast [(Some ''a'', [NText ''A'']), (None, [NText ''B'']),
                        (Some ''c'', [NText ''C'']), (None, [NText ''D''])]"
proof
  show "parse (lex elseThenElifTemplate) =
     Inr [NIf [(Some ''a'', [NText ''A'']), (None, [NText ''B'']),
               (Some ''c'', [NText ''C'']), (None, [NText ''D''])]
            \<lparr>line = 1, col = 1, index = 0\<rparr>]"
    by code_simp
  show "\<not> elseOnlyLast [(Some ''a'', [NText ''A'']), (None, [NText ''B'']),
                        (Some ''c'', [NText ''C'']), (None, [NText ''D''])]"
    by (simp add: elseOnlyLast_def)
qed

text \<open>
  C8, amended. On every token sequence that parses, every conditional node of the tree
  has at least one branch, and its first branch, the one of the \<open>if\<close> tag, has a test
  that is not null. An \<open>else\<close> tag appends a branch with a null test and an \<open>elif\<close> tag
  a branch with its test, whatever branches the conditional already has.
\<close>

theorem conditional_branches_shape:
  "(parse toks = Inr tree \<longrightarrow> list_all ifHeadTree tree)
   \<and> (tagName (content t) = ''else'' \<longrightarrow>
        parseTag t (out, IfFrame ns brs cur p # fs) =
          Inr (out, IfFrame ns (brs @ [(None, [])]) (length brs) p # fs))
   \<and> (tagName (content t) = ''elif'' \<longrightarrow>
        parseTag t (out, IfFrame ns brs cur p # fs) =
          Inr (out, IfFrame ns (brs @ [(Some (trim (drop 4 (content t))), [])]) (length brs) p # fs))"
proof (intro conjI impI)
  assume "parse toks = Inr tree"
  then have "parseLoop toks ([], []) = Inr (tree, [])"
    by (auto simp: parse_def split: sum.splits list.splits)
  from parseLoop_ifHead[OF this] show "list_all ifHeadTree tree"
    by (simp add: ifHeadState_def)
next
  assume "tagName (content t) = ''else''"
  then show "parseTag t (out, IfFrame ns brs cur p # fs) =
          Inr (out, IfFrame ns (brs @ [(None, [])]) (length brs) p # fs)"
    by (rule parseTag_else)
next
  assume "tagName (content t) = ''elif''"
  then show "parseTag t (out, IfFrame ns brs cur p # fs) =
          Inr (out, IfFrame ns (brs @ [(Some (trim (drop 4 (content t))), [])]) (length brs) p # fs)"
    by (rule parseTag_elif)
qed

theorem conditional_branches_shape_witness:
  "list_all ifHeadTree
     [NIf [(Some ''a'', [NText ''A'']), (None, [NText ''B'']),
           (Some ''c'', [NText ''C'']), (None, [NText ''D''])]
        \<lparr>line = 1, col = 1, index = 0\<rparr>]
   \<and> parseTag (mkToken TTag ''else'' noPos) ([], [IfFrame [] [(Some ''a'', []), (None, [])] 1 noPos]) =
       Inr ([], [IfFrame [] [(Some ''a'', []), (None, []), (None, [])] 2 noPos])"
proof -
  have p: "parse (lex elseThenElifTemplate) =
     Inr [NIf [(Some ''a'', [NText ''A'']), (None, [NText ''B'']),
               (Some ''c'', [NText ''C'']), (None, [NText ''D''])]
            \<lparr>line = 1, col = 1, index = 0\<rparr>]"
    by code_simp
  have n: "tagName (content (mkToken TTag ''else'' noPos)) = ''else''" by code_simp
  from conditional_branches_shape[where toks = "lex elseThenElifTemplate", THEN conjunct1] p
  have 1: "list_all ifHeadTree
     [NIf [(Some ''a'', [NText ''A'']), (None, [NText ''B'']),
           (Some ''c'', [NText ''C'']), (None, [NText ''D''])]
        \<lparr>line = 1, col = 1, index = 0\<rparr>]"
    by blast
  from conditional_branches_shape[where t = "mkToken TTag ''else'' noPos" and out = "[]"
      and ns = "[]" and brs = "[(Some ''a'', []), (None, [])]" and cur = 1 and p = noPos
      and fs = "[]", THEN conjunct2, THEN conjunct1] n
  have 2: "parseTag (mkToken TTag ''else'' noPos) ([], [IfFrame [] [(Some ''a'', []), (None, [])] 1 noPos]) =
       Inr ([], [IfFrame [] [(Some ''a'', []), (None, []), (None, [])] 2 noPos])"
    by simp
  from 1 2 show ?thesis by blast
qed

section \<open>Path chains never raise\<close>










section \<open>Comparison tests\<close>

definition opAt :: "string \<Rightarrow> string option" where
  \<comment> \<open>The comparison operator a string starts with, two-character operators first.\<close>
  "opAt s =
     (if startsWith s ''=='' then Some ''==''
      else if startsWith s ''!='' then Some ''!=''
      else if startsWith s ''>='' then Some ''>=''
      else if startsWith s ''<='' then Some ''<=''
      else if startsWith s ''>'' then Some ''>''
      else if startsWith s ''<'' then Some ''<''
      else None)"

fun opPos :: "string \<Rightarrow> nat option" where
  \<comment> \<open>The leftmost position at which an operator occurs.\<close>
  "opPos [] = None"
| "opPos (x # xs) = (if opAt (x # xs) \<noteq> None then Some 0 else map_option Suc (opPos xs))"

definition firstOp :: "string \<Rightarrow> (string \<times> string \<times> string) option" where
  \<comment> \<open>The text before the leftmost operator, the operator, and the text after it.\<close>
  "firstOp s =
     (case opPos s of
        None \<Rightarrow> None
      | Some p \<Rightarrow>
          (case opAt (drop p s) of
             None \<Rightarrow> None
           | Some op \<Rightarrow> Some (take p s, op, drop (p + length op) s)))"

fun splitPos :: "string \<Rightarrow> nat option" where
  \<comment> \<open>The leftmost position from which whitespace and then an operator follow: the
      length of the first group of the comparison pattern.\<close>
  "splitPos [] = None"
| "splitPos (x # xs) =
     (if opAt (dropWhile isSpace (x # xs)) \<noteq> None then Some 0 else map_option Suc (splitPos xs))"

lemma opAt_Nil: "opAt [] = None"
  by (simp add: opAt_def startsWith_def)

lemma opAt_space: "isSpace x \<Longrightarrow> opAt (x # xs) = None"
  by (auto simp: opAt_def startsWith_def isSpace_def)

lemma opAt_startsWith: "opAt s = Some op \<Longrightarrow> startsWith s op \<and> op \<noteq> []"
  by (auto simp: opAt_def split: if_splits)

lemma startsWith_take: "startsWith s op \<Longrightarrow> take (length s - length (drop (length op) s)) s = op"
proof -
  assume a: "startsWith s op"
  have "length (take (length op) s) \<le> length s" by simp
  with a have "length op \<le> length s" by (simp add: startsWith_def)
  then have "length s - length (drop (length op) s) = length op" by simp
  with a show ?thesis by (simp add: startsWith_def)
qed

lemma starG_skip:
  assumes "\<And>p' x xs cs'. c x \<Longrightarrow> k (p', x # xs, cs') = None"
  shows "starG c k p cs u = k (p + length (takeWhile c u), dropWhile c u, cs)"
proof (induction u arbitrary: p)
  case Nil
  show ?case by simp
next
  case (Cons x xs)
  show ?case
  proof (cases "c x")
    case True
    with assms have "k (p, x # xs, cs) = None" by simp
    with True Cons[of "Suc p"] show ?thesis by (simp split: option.splits)
  next
    case False
    then show ?thesis by simp
  qed
qed

lemma starG_max:
  "k (p + length (takeWhile c u), dropWhile c u, cs) = Some r \<Longrightarrow> starG c k p cs u = Some r"
proof (induction u arbitrary: p)
  case Nil
  then show ?case by simp
next
  case (Cons x xs)
  show ?case
  proof (cases "c x")
    case True
    with Cons.prems have "k (Suc p + length (takeWhile c xs), dropWhile c xs, cs) = Some r" by simp
    from Cons.IH[OF this] True show ?thesis by simp
  next
    case False
    with Cons.prems show ?thesis by simp
  qed
qed

lemma starL_to_end:
  assumes "\<And>p' x xs cs'. k (p', x # xs, cs') = None" and "list_all c v"
  shows "starL c k p cs v = k (p + length v, [], cs)"
  using assms(2)
proof (induction v arbitrary: p)
  case Nil
  show ?case by simp
next
  case (Cons x xs)
  with assms(1) show ?case by simp
qed

lemma rmatch_Grp_Star_lazy:
  "rmatch (Grp i (Star False c)) k (p, s, cs) = starL c (\<lambda>st'. k (setCap i (p, s, cs) st')) p cs s"
  by (simp add: star_def)

lemma rmatch_Star_greedy: "rmatch (Star True c) k (p, s, cs) = starG c k p cs s"
  by (simp add: star_def)

lemma rmatch_Eol_Some:
  "rmatch Eol Some (p, s, cs) = (if s = [] then Some (p, s, cs) else None)"
  by simp

definition opsRe :: re where
  \<comment> \<open>The alternation \<open>==|!=|>=|<=|>|<\<close> of the comparison pattern.\<close>
  "opsRe = Alt (Lit ''=='') (Alt (Lit ''!='') (Alt (Lit ''>='')
             (Alt (Lit ''<='') (Alt (Lit ''>'') (Lit ''<'')))))"

lemma rmatch_Lit_if:
  "rmatch (Lit l) k (p, v, cs) =
     (if startsWith v l then k (p + length l, drop (length l) v, cs) else None)"
  by simp

lemma ops_match:
  assumes ok: "\<And>op. opAt v = Some op \<Longrightarrow>
            k (p + length op, drop (length op) v, cs(2 \<mapsto> op)) \<noteq> None"
  shows "rmatch (Grp 2 opsRe) k (p, v, cs) =
     (case opAt v of
        None \<Rightarrow> None
      | Some op \<Rightarrow> k (p + length op, drop (length op) v, cs(2 \<mapsto> op)))"
proof -
  let ?K = "\<lambda>st'. k (setCap 2 (p, v, cs) st')"
  have cap: "\<And>op. startsWith v op \<Longrightarrow>
      ?K (p + length op, drop (length op) v, cs) = k (p + length op, drop (length op) v, cs(2 \<mapsto> op))"
  proof -
    fix op assume "startsWith v op"
    from startsWith_take[OF this]
    show "?K (p + length op, drop (length op) v, cs) =
        k (p + length op, drop (length op) v, cs(2 \<mapsto> op))"
      by (simp only: setCap_def prod.case)
  qed
  show ?thesis
  proof (cases "opAt v")
    case None
    then have "\<not> startsWith v ''==''" "\<not> startsWith v ''!=''" "\<not> startsWith v ''>=''"
      "\<not> startsWith v ''<=''" "\<not> startsWith v ''>''" "\<not> startsWith v ''<''"
      by (auto simp: opAt_def split: if_splits)
    with None show ?thesis by (simp add: opsRe_def)
  next
    case (Some op)
    from ok[OF Some] obtain r where r: "k (p + length op, drop (length op) v, cs(2 \<mapsto> op)) = Some r"
      by auto
    from Some consider
        "op = ''==''" "startsWith v ''==''"
      | "op = ''!=''" "\<not> startsWith v ''==''" "startsWith v ''!=''"
      | "op = ''>=''" "\<not> startsWith v ''==''" "\<not> startsWith v ''!=''" "startsWith v ''>=''"
      | "op = ''<=''" "\<not> startsWith v ''==''" "\<not> startsWith v ''!=''" "\<not> startsWith v ''>=''"
          "startsWith v ''<=''"
      | "op = ''>''" "\<not> startsWith v ''==''" "\<not> startsWith v ''!=''" "\<not> startsWith v ''>=''"
          "\<not> startsWith v ''<=''" "startsWith v ''>''"
      | "op = ''<''" "\<not> startsWith v ''==''" "\<not> startsWith v ''!=''" "\<not> startsWith v ''>=''"
          "\<not> startsWith v ''<=''" "\<not> startsWith v ''>''" "startsWith v ''<''"
      by (auto simp: opAt_def split: if_splits)
    then show ?thesis
    proof cases
      case 1
      with Some r cap[of op] show ?thesis by (simp add: opsRe_def)
    next
      case 2
      with Some r cap[of op] show ?thesis by (simp add: opsRe_def)
    next
      case 3
      with Some r cap[of op] show ?thesis by (simp add: opsRe_def)
    next
      case 4
      with Some r cap[of op] show ?thesis by (simp add: opsRe_def)
    next
      case 5
      with Some r cap[of op] show ?thesis by (simp add: opsRe_def)
    next
      case 6
      with Some r cap[of op] show ?thesis by (simp add: opsRe_def)
    qed
  qed
qed

lemma list_all_dropWhile: "list_all P xs \<Longrightarrow> list_all P (dropWhile Q xs)"
  by (induction xs) auto

lemma list_all_drop: "list_all P xs \<Longrightarrow> list_all P (drop n xs)"
  by (metis append_take_drop_id list_all_append)

lemma length_takeWhile_dropWhile: "length (takeWhile P xs) + length (dropWhile P xs) = length xs"
  by (induction xs) auto

definition afterOp :: "mstate \<Rightarrow> mstate option" where
  \<comment> \<open>The comparison pattern after its operator: \<open>\s*(.*?)$\<close>.\<close>
  "afterOp = rmatch (Star True isSpace) (rmatch (Grp 3 (Star False isDot)) (rmatch Eol Some))"

definition fromOp :: "mstate \<Rightarrow> mstate option" where
  \<comment> \<open>The comparison pattern from its operator on.\<close>
  "fromOp = rmatch (Grp 2 opsRe) afterOp"

definition afterLeft :: "mstate \<Rightarrow> mstate option" where
  \<comment> \<open>The comparison pattern after its first group: \<open>\s*(==|!=|>=|<=|>|<)\s*(.*?)$\<close>.\<close>
  "afterLeft = rmatch (Star True isSpace) fromOp"

lemma afterOp_match:
  assumes "list_all isDot w"
  shows "afterOp (p, w, cs) = Some (p + length w, [], cs(3 \<mapsto> dropWhile isSpace w))"
proof -
  let ?n = "length (takeWhile isSpace w)"
  let ?w = "dropWhile isSpace w"
  let ?st = "(p + ?n, ?w, cs) :: mstate"
  have d: "list_all isDot ?w" using assms by (rule list_all_dropWhile)
  have "rmatch (Grp 3 (Star False isDot)) (rmatch Eol Some) ?st =
      starL isDot (\<lambda>st'. rmatch Eol Some (setCap 3 ?st st')) (p + ?n) cs ?w"
    by (rule rmatch_Grp_Star_lazy)
  also have "\<dots> = rmatch Eol Some (setCap 3 ?st (p + ?n + length ?w, [], cs))"
    by (rule starL_to_end[OF _ d]) (simp add: setCap_def)
  also have "\<dots> = Some (p + length w, [], cs(3 \<mapsto> ?w))"
    using length_takeWhile_dropWhile[of isSpace w] by (simp add: setCap_def)
  finally have "rmatch (Grp 3 (Star False isDot)) (rmatch Eol Some) ?st =
      Some (p + length w, [], cs(3 \<mapsto> ?w))" .
  then have "starG isSpace (rmatch (Grp 3 (Star False isDot)) (rmatch Eol Some)) p cs w =
      Some (p + length w, [], cs(3 \<mapsto> ?w))"
    by (rule starG_max)
  then show ?thesis by (simp add: afterOp_def star_def)
qed

lemma fromOp_match:
  assumes "list_all isDot v"
  shows "fromOp (p, v, cs) =
     (case opAt v of
        None \<Rightarrow> None
      | Some op \<Rightarrow>
          Some (p + length v, [], cs(2 \<mapsto> op, 3 \<mapsto> dropWhile isSpace (drop (length op) v))))"
proof -
  have a: "\<And>op cs'. afterOp (p + length op, drop (length op) v, cs') =
      Some (p + length op + length (drop (length op) v), [],
            cs'(3 \<mapsto> dropWhile isSpace (drop (length op) v)))"
    using assms by (intro afterOp_match list_all_drop)
  have l: "\<And>op. opAt v = Some op \<Longrightarrow> length op + length (drop (length op) v) = length v"
  proof -
    fix op assume "opAt v = Some op"
    then have "startsWith v op" by (simp add: opAt_startsWith)
    then have "take (length op) v = op" by (simp add: startsWith_def)
    moreover have "length (take (length op) v) \<le> length v" by simp
    ultimately have "length op \<le> length v" by simp
    then show "length op + length (drop (length op) v) = length v" by simp
  qed
  have "fromOp (p, v, cs) =
     (case opAt v of
        None \<Rightarrow> None
      | Some op \<Rightarrow> afterOp (p + length op, drop (length op) v, cs(2 \<mapsto> op)))"
    unfolding fromOp_def by (rule ops_match) (simp add: a)
  also have "\<dots> = (case opAt v of
        None \<Rightarrow> None
      | Some op \<Rightarrow>
          Some (p + length v, [], cs(2 \<mapsto> op, 3 \<mapsto> dropWhile isSpace (drop (length op) v))))"
    using l by (auto simp: a split: option.splits)
  finally show ?thesis .
qed

lemma fromOp_space: "isSpace x \<Longrightarrow> fromOp (p, x # xs, cs) = None"
proof -
  assume "isSpace x"
  then have n: "opAt (x # xs) = None" by (rule opAt_space)
  have "fromOp (p, x # xs, cs) =
     (case opAt (x # xs) of
        None \<Rightarrow> None
      | Some op \<Rightarrow> afterOp (p + length op, drop (length op) (x # xs), cs(2 \<mapsto> op)))"
    unfolding fromOp_def by (rule ops_match) (simp add: n)
  with n show ?thesis by simp
qed

lemma afterLeft_match:
  assumes "list_all isDot u"
  shows "afterLeft (p, u, cs) =
     (case opAt (dropWhile isSpace u) of
        None \<Rightarrow> None
      | Some op \<Rightarrow>
          Some (p + length u, [],
                cs(2 \<mapsto> op, 3 \<mapsto> dropWhile isSpace (drop (length op) (dropWhile isSpace u)))))"
proof -
  have "afterLeft (p, u, cs) = starG isSpace fromOp p cs u"
    by (simp add: afterLeft_def star_def)
  also have "\<dots> = fromOp (p + length (takeWhile isSpace u), dropWhile isSpace u, cs)"
    by (rule starG_skip) (rule fromOp_space)
  also have "\<dots> = (case opAt (dropWhile isSpace u) of
        None \<Rightarrow> None
      | Some op \<Rightarrow>
          Some (p + length (takeWhile isSpace u) + length (dropWhile isSpace u), [],
                cs(2 \<mapsto> op, 3 \<mapsto> dropWhile isSpace (drop (length op) (dropWhile isSpace u)))))"
    using assms by (intro fromOp_match list_all_dropWhile)
  finally show ?thesis
    using length_takeWhile_dropWhile[of isSpace u] by (auto simp: add.assoc split: option.splits)
qed

lemma cmpRe_unfold:
  "rmatch cmpRe Some = rmatch Bol (rmatch (Grp 1 (Star False isDot)) afterLeft)"
  unfolding cmpRe_def afterLeft_def fromOp_def afterOp_def opsRe_def
  by (simp only: seqs.simps rmatch_Seq_fun)

lemma afterLeft_setCap_None:
  assumes "list_all isDot s1"
  shows "(afterLeft (setCap 1 st0 (p, s1, cs)) = None) = (opAt (dropWhile isSpace s1) = None)"
proof -
  obtain p0 s0 cs0 where st0: "st0 = (p0, s0, cs0)" by (cases st0)
  have "setCap 1 st0 (p, s1, cs) = (p, s1, cs(1 \<mapsto> take (length s0 - length s1) s0))"
    by (simp add: st0 setCap_def)
  then show ?thesis
    by (simp add: afterLeft_match[OF assms] split: option.splits)
qed

lemma starL_split:
  assumes "list_all isDot s'"
  shows "starL isDot (\<lambda>st'. afterLeft (setCap 1 st0 st')) p cs s' =
     (case splitPos s' of
        None \<Rightarrow> None
      | Some k \<Rightarrow> afterLeft (setCap 1 st0 (p + k, drop k s', cs)))"
  using assms
proof (induction s' arbitrary: p)
  case Nil
  have "afterLeft (setCap 1 st0 (p, [], cs)) = None"
    by (subst afterLeft_setCap_None) (simp_all add: opAt_Nil)
  then show ?case by simp
next
  case (Cons x xs)
  then have d: "list_all isDot (x # xs)" and dx: "isDot x" and dxs: "list_all isDot xs" by simp_all
  show ?case
  proof (cases "opAt (dropWhile isSpace (x # xs)) = None")
    case True
    with afterLeft_setCap_None[OF d, of st0 p cs]
    have n: "afterLeft (setCap 1 st0 (p, x # xs, cs)) = None" by simp
    have "starL isDot (\<lambda>st'. afterLeft (setCap 1 st0 st')) p cs (x # xs) =
        starL isDot (\<lambda>st'. afterLeft (setCap 1 st0 st')) (Suc p) cs xs"
      using n dx by simp
    also have "\<dots> = (case splitPos xs of
        None \<Rightarrow> None
      | Some k \<Rightarrow> afterLeft (setCap 1 st0 (Suc p + k, drop k xs, cs)))"
      by (rule Cons.IH[OF dxs])
    finally show ?thesis using True by (simp split: option.splits)
  next
    case False
    with afterLeft_setCap_None[OF d, of st0 p cs]
    obtain r where "afterLeft (setCap 1 st0 (p, x # xs, cs)) = Some r" by auto
    with False show ?thesis by simp
  qed
qed

lemma splitPos_bound:
  "splitPos s = Some k \<Longrightarrow> k \<le> length s \<and> opAt (dropWhile isSpace (drop k s)) \<noteq> None"
proof (induction s arbitrary: k)
  case Nil
  then show ?case by simp
next
  case (Cons x xs)
  show ?case
  proof (cases "opAt (dropWhile isSpace (x # xs)) = None")
    case True
    with Cons.prems obtain k' where "splitPos xs = Some k'" "k = Suc k'" by auto
    with Cons.IH[of k'] show ?thesis by simp
  next
    case False
    with Cons.prems have "k = 0" by simp
    with False show ?thesis by simp
  qed
qed

lemma searchFrom_cmpRe_later: "0 < p \<Longrightarrow> searchFrom cmpRe p s = None"
  by (induction s arbitrary: p) (simp_all add: cmpRe_unfold)

lemma reMatch_cmpRe_start:
  "reMatch cmpRe s = map_option (\<lambda>st. snd (snd st)) (rmatch cmpRe Some (0, s, Map.empty))"
proof (cases s)
  case Nil
  then show ?thesis by (simp add: reMatch_def option.map_comp comp_def)
next
  case (Cons x xs)
  then show ?thesis
    by (cases "rmatch cmpRe Some (0, x # xs, Map.empty)")
       (simp_all add: reMatch_def searchFrom_cmpRe_later)
qed

text \<open>
  The match of the comparison pattern on an expression without line terminator, in
  terms of \<open>splitPos\<close>.
\<close>

lemma reMatch_cmpRe:
  assumes "list_all isDot s"
  shows "reMatch cmpRe s =
     (case splitPos s of
        None \<Rightarrow> None
      | Some k \<Rightarrow>
          (case opAt (dropWhile isSpace (drop k s)) of
             None \<Rightarrow> None
           | Some op \<Rightarrow>
               Some [1 \<mapsto> take k s, 2 \<mapsto> op,
                     3 \<mapsto> dropWhile isSpace (drop (length op) (dropWhile isSpace (drop k s)))]))"
proof -
  have "rmatch cmpRe Some (0, s, Map.empty) =
      starL isDot (\<lambda>st'. afterLeft (setCap 1 (0, s, Map.empty) st')) 0 Map.empty s"
    by (simp add: cmpRe_unfold star_def)
  also have "\<dots> = (case splitPos s of
        None \<Rightarrow> None
      | Some k \<Rightarrow> afterLeft (setCap 1 (0, s, Map.empty) (0 + k, drop k s, Map.empty)))"
    by (rule starL_split[OF assms])
  finally have m: "rmatch cmpRe Some (0, s, Map.empty) =
      (case splitPos s of
        None \<Rightarrow> None
      | Some k \<Rightarrow> afterLeft (setCap 1 (0, s, Map.empty) (0 + k, drop k s, Map.empty)))" .
  show ?thesis
  proof (cases "splitPos s")
    case None
    with m show ?thesis by (simp add: reMatch_cmpRe_start)
  next
    case (Some k)
    from splitPos_bound[OF Some] have k: "k \<le> length s" by simp
    then have t: "take (length s - (length s - k)) s = take k s" by simp
    have c: "setCap 1 (0, s, Map.empty) (0 + k, drop k s, Map.empty) =
        (k, drop k s, [1 \<mapsto> take k s])"
      using t by (simp add: setCap_def)
    have d: "list_all isDot (drop k s)" using assms by (rule list_all_drop)
    from m Some have "rmatch cmpRe Some (0, s, Map.empty) =
        afterLeft (setCap 1 (0, s, Map.empty) (0 + k, drop k s, Map.empty))"
      by simp
    then have "rmatch cmpRe Some (0, s, Map.empty) = afterLeft (k, drop k s, [1 \<mapsto> take k s])"
      by (simp only: c)
    with Some show ?thesis
      by (simp add: reMatch_cmpRe_start afterLeft_match[OF d] split: option.splits)
  qed
qed

lemma opPos_none_drop: "opPos s = None \<Longrightarrow> opAt (drop i s) = None"
proof (induction s arbitrary: i)
  case Nil
  show ?case by (simp add: opAt_Nil)
next
  case (Cons x xs)
  then have a: "opAt (x # xs) = None" and b: "opPos xs = None" by (auto split: if_splits)
  show ?case
  proof (cases i)
    case 0
    with a show ?thesis by simp
  next
    case (Suc j)
    with Cons.IH[OF b, of j] show ?thesis by simp
  qed
qed

lemma opPos_none_splitPos: "opPos s = None \<Longrightarrow> splitPos s = None"
proof (induction s)
  case Nil
  show ?case by simp
next
  case (Cons x xs)
  then have b: "opPos xs = None" by (auto split: if_splits)
  have "opAt (dropWhile isSpace (x # xs)) = None"
    unfolding dropWhile_eq_drop by (rule opPos_none_drop[OF Cons.prems])
  with Cons.IH[OF b] show ?case by simp
qed

lemma opPos_min: "opPos s = Some p \<Longrightarrow> i < p \<Longrightarrow> opAt (drop i s) = None"
proof (induction s arbitrary: p i)
  case Nil
  then show ?case by simp
next
  case (Cons x xs)
  from Cons.prems have a: "opAt (x # xs) = None" by (auto split: if_splits)
  with Cons.prems obtain p' where p': "opPos xs = Some p'" "p = Suc p'" by auto
  show ?case
  proof (cases i)
    case 0
    with a show ?thesis by simp
  next
    case (Suc j)
    with Cons.prems p' Cons.IH[OF p'(1), of j] show ?thesis by simp
  qed
qed

lemma opPos_some: "opPos s = Some p \<Longrightarrow> opAt (drop p s) \<noteq> None \<and> p < length s"
proof (induction s arbitrary: p)
  case Nil
  then show ?case by simp
next
  case (Cons x xs)
  show ?case
  proof (cases "opAt (x # xs) = None")
    case True
    with Cons.prems obtain p' where p': "opPos xs = Some p'" "p = Suc p'" by auto
    with Cons.IH[OF p'(1)] show ?thesis by simp
  next
    case False
    with Cons.prems show ?thesis by simp
  qed
qed

lemma opPos_splitPos:
  "opPos s = Some p \<Longrightarrow>
     \<exists>k. splitPos s = Some k \<and> k \<le> p \<and> list_all isSpace (take (p - k) (drop k s))"
proof (induction s arbitrary: p)
  case Nil
  then show ?case by simp
next
  case (Cons x xs)
  show ?case
  proof (cases "opAt (x # xs) = None")
    case False
    with Cons.prems have p: "p = 0" by simp
    have "\<not> isSpace x"
    proof
      assume "isSpace x"
      then have "opAt (x # xs) = None" by (rule opAt_space)
      with False show False by simp
    qed
    with False p show ?thesis by simp
  next
    case True
    with Cons.prems obtain p' where p': "opPos xs = Some p'" "p = Suc p'" by auto
    from Cons.IH[OF p'(1)] obtain k' where
      k': "splitPos xs = Some k'" "k' \<le> p'" "list_all isSpace (take (p' - k') (drop k' xs))" by blast
    show ?thesis
    proof (cases "opAt (dropWhile isSpace (x # xs)) = None")
      case True
      with k' p' show ?thesis by simp
    next
      case False
      with True have sx: "isSpace x" by (auto split: if_splits)
      let ?j = "length (takeWhile isSpace xs)"
      from False sx have "opAt (drop ?j xs) \<noteq> None" by (simp add: dropWhile_eq_drop)
      with opPos_min[OF p'(1), of ?j] have "p' \<le> ?j" by (meson not_le)
      then have "take p' xs = take p' (takeWhile isSpace xs)"
        by (metis takeWhile_dropWhile_id take_append diff_is_0_eq take_0 append_Nil2)
      moreover have "list_all isSpace (take p' (takeWhile isSpace xs))"
        by (metis list_all_iff set_takeWhileD in_set_takeD)
      ultimately have "list_all isSpace (take p' xs)" by simp
      with sx False p' show ?thesis by simp
    qed
  qed
qed

lemma trim_append_spaces:
  assumes "list_all isSpace ws"
  shows "trim (a @ ws) = trim a"
proof (cases "list_all isSpace a")
  case True
  with assms have e1: "dropWhile isSpace (a @ ws) = []" by (auto simp: list_all_iff)
  from True have e2: "dropWhile isSpace a = []" by (simp add: list_all_iff)
  show ?thesis unfolding trim_def e1 e2 by simp
next
  case False
  then obtain x where "x \<in> set a" "\<not> isSpace x" by (auto simp: list_all_iff)
  then have "dropWhile isSpace (a @ ws) = dropWhile isSpace a @ ws"
    by (rule dropWhile_append1)
  moreover have "dropWhile isSpace (rev ws @ rev (dropWhile isSpace a)) =
      dropWhile isSpace (rev (dropWhile isSpace a))"
    using assms by (intro dropWhile_append2) (simp add: list_all_iff)
  ultimately show ?thesis by (simp add: trim_def)
qed

lemma trim_dropWhile: "trim (dropWhile isSpace r) = trim r"
  by (simp add: trim_def)

lemma getValueFromExpr_spaces:
  "list_all isSpace ws \<Longrightarrow> getValueFromExpr h c (a @ ws) = getValueFromExpr h c a"
  using getValueFromExpr_trim[of h c "a @ ws"] getValueFromExpr_trim[of h c a]
  by (simp add: trim_append_spaces)

lemma getValueFromExpr_dropWhile:
  "getValueFromExpr h c (dropWhile isSpace r) = getValueFromExpr h c r"
  using getValueFromExpr_trim[of h c "dropWhile isSpace r"] getValueFromExpr_trim[of h c r]
  by (simp add: trim_dropWhile)

lemma getValueFromExpr_blank:
  assumes "trim e = []"
  shows "getValueFromExpr h c e = VUndefined"
proof -
  have n: "reTest numRe [] = False" by code_simp
  have q: "reMatch quotedRe [] = None" by code_simp
  have i: "reMatch identRe [] = None" by code_simp
  show ?thesis
    by (simp add: getValueFromExpr_def getValueFromExprE.simps[of h c e] assms n q i)
qed

lemma firstOp_none: "opPos s = None \<Longrightarrow> firstOp s = None"
  by (simp add: firstOp_def)

lemma evalTestExpression_firstOp:
  assumes dot: "list_all isDot (trim expr)"
  shows "evalTestExpression h c expr =
     (case firstOp (trim expr) of
        Some (l, op, r) \<Rightarrow> safeCompare h (getValueFromExpr h c l) (getValueFromExpr h c r) op
      | None \<Rightarrow> truthy (getValueFromExpr h c expr))"
proof (cases "trim expr = []")
  case True
  then show ?thesis
    by (simp add: evalTestExpression_def firstOp_def getValueFromExpr_blank)
next
  case ne: False
  let ?s = "trim expr"
  have e: "evalTestExpression h c expr =
      (case reMatch cmpRe ?s of
         Some cmp \<Rightarrow>
           safeCompare h (getValueFromExpr h c (cap cmp 1)) (getValueFromExpr h c (cap cmp 3)) (cap cmp 2)
       | None \<Rightarrow> truthy (getValueFromExpr h c ?s))"
    using ne by (simp add: evalTestExpression_def Let_def)
  show ?thesis
  proof (cases "opPos ?s")
    case None
    then have "reMatch cmpRe ?s = None"
      by (simp add: reMatch_cmpRe[OF dot] opPos_none_splitPos)
    with None show ?thesis
      by (simp add: e firstOp_none getValueFromExpr_trim)
  next
    case (Some p)
    from opPos_splitPos[OF Some] obtain k where
      k: "splitPos ?s = Some k" "k \<le> p" and ws: "list_all isSpace (take (p - k) (drop k ?s))"
      by blast
    from opPos_some[OF Some] obtain op where op: "opAt (drop p ?s) = Some op" by auto
    define ws where "ws = take (p - k) (drop k (trim expr))"
    have wsp: "list_all isSpace ws" using ws by (simp add: ws_def)
    have dk: "drop k ?s = ws @ drop p ?s"
      unfolding ws_def using k(2) by (metis append_take_drop_id drop_drop le_add_diff_inverse2)
    have tk: "take p ?s = take k ?s @ ws"
      unfolding ws_def using k(2) by (metis le_add_diff_inverse take_add)
    obtain y ys where y: "drop p ?s = y # ys"
      using op by (cases "drop p ?s") (simp_all add: opAt_Nil)
    have "\<not> isSpace y"
    proof
      assume "isSpace y"
      then have "opAt (y # ys) = None" by (rule opAt_space)
      with op y show False by simp
    qed
    then have a: "dropWhile isSpace (drop p ?s) = drop p ?s" by (simp add: y)
    have b: "dropWhile isSpace (ws @ drop p ?s) = dropWhile isSpace (drop p ?s)"
      using wsp by (intro dropWhile_append2) (simp add: list_all_iff)
    have dw: "dropWhile isSpace (drop k ?s) = drop p ?s"
      by (simp only: dk b a)
    have m: "reMatch cmpRe ?s =
        Some [1 \<mapsto> take k ?s, 2 \<mapsto> op, 3 \<mapsto> dropWhile isSpace (drop (length op) (drop p ?s))]"
      by (simp add: reMatch_cmpRe[OF dot] k(1) dw op)
    have l: "getValueFromExpr h c (take p ?s) = getValueFromExpr h c (take k ?s)"
      unfolding tk using wsp by (rule getValueFromExpr_spaces)
    have r: "getValueFromExpr h c (dropWhile isSpace (drop (length op) (drop p ?s))) =
        getValueFromExpr h c (drop (p + length op) ?s)"
      by (simp add: getValueFromExpr_dropWhile add.commute)
    have f: "firstOp ?s = Some (take p ?s, op, drop (p + length op) ?s)"
      by (simp add: firstOp_def Some op)
    show ?thesis
      unfolding e m f by (simp add: cap_def l getValueFromExpr_dropWhile add.commute)
  qed
qed

definition strOf :: "host \<Rightarrow> jsval \<Rightarrow> string" where
  \<comment> \<open>The string form used by a comparison: empty for null and undefined.\<close>
  "strOf h v = (if isNullish v then [] else toStr h v)"

fun isNumber :: "jsval \<Rightarrow> bool" where
  "isNumber (VNum d) = True"
| "isNumber _ = False"

lemma safeCompare_numbers:
  "safeCompare h (VNum a) (VNum b) ''<'' = decLess a b"
  "safeCompare h (VNum a) (VNum b) ''>'' = decLess b a"
  "safeCompare h (VNum a) (VNum b) ''<='' = (\<not> decLess b a)"
  "safeCompare h (VNum a) (VNum b) ''>='' = (\<not> decLess a b)"
  "safeCompare h (VNum a) (VNum b) ''=='' = decEq a b"
  "safeCompare h (VNum a) (VNum b) ''!='' = (\<not> decEq a b)"
  by (simp_all add: safeCompare_def)

lemma safeCompare_strings:
  assumes "\<not> (isNumber l \<and> isNumber r)"
  shows "safeCompare h l r ''<'' = strLess (strOf h l) (strOf h r)"
    "safeCompare h l r ''>'' = strLess (strOf h r) (strOf h l)"
    "safeCompare h l r ''<='' = (\<not> strLess (strOf h r) (strOf h l))"
    "safeCompare h l r ''>='' = (\<not> strLess (strOf h l) (strOf h r))"
    "safeCompare h l r ''=='' = (strOf h l = strOf h r)"
    "safeCompare h l r ''!='' = (strOf h l \<noteq> strOf h r)"
  using assms
  by (cases l; cases r; simp add: safeCompare_def strOf_def Let_def)+

definition quotedOperatorTest :: string where
  "quotedOperatorTest = [CHR 0x22] @ ''a<b'' @ [CHR 0x22] @ '' == '' @ [CHR 0x22] @ ''a<b'' @ [CHR 0x22]"

definition quotedOperand :: string where
  "quotedOperand = [CHR 0x22] @ ''a<b'' @ [CHR 0x22]"

text \<open>
  C4, as stated, fails: the comparison pattern knows nothing of quotes. In the test
  \<open>"a<b" == "a<b"\<close> the only operator outside a string literal is \<open>==\<close>, and its two
  operands are the same string, yet the test is false: it is split at the \<open><\<close> inside
  the first literal.
\<close>

theorem quoted_operator_counterexample:
  "evalTestExpression noHost Map.empty quotedOperatorTest = False
   \<and> quotedOperatorTest = quotedOperand @ '' == '' @ quotedOperand
   \<and> getValueFromExpr noHost Map.empty quotedOperand = VStr ''a<b''
   \<and> safeCompare noHost (getValueFromExpr noHost Map.empty quotedOperand)
         (getValueFromExpr noHost Map.empty quotedOperand) ''=='' = True"
proof (intro conjI)
  show "evalTestExpression noHost Map.empty quotedOperatorTest = False" by code_simp
  show "quotedOperatorTest = quotedOperand @ '' == '' @ quotedOperand"
    by (simp add: quotedOperatorTest_def quotedOperand_def)
  show "getValueFromExpr noHost Map.empty quotedOperand = VStr ''a<b''" by code_simp
  show "safeCompare noHost (getValueFromExpr noHost Map.empty quotedOperand)
         (getValueFromExpr noHost Map.empty quotedOperand) ''=='' = True"
    by code_simp
qed

text \<open>
  C4, amended. A test expression is trimmed. If it has no line terminator and an operator
  among \<open>==\<close>, \<open>!=\<close>, \<open>>=\<close>, \<open><=\<close>, \<open>>\<close>, \<open><\<close> occurs in it, it is split at the leftmost
  occurrence of an operator, inside a quoted literal or not, a two-character operator
  taken before a one-character one; the text on either side is evaluated as an
  expression, and the values are compared as numbers when both are numbers, and
  otherwise by the lexicographic order of their string forms, null and undefined giving
  the empty string. If no operator occurs, the test is the truthiness of the value of the
  expression: undefined, null, false, zero and the empty string are falsy, every other
  value is truthy, empty arrays and objects too.
\<close>

theorem comparison_test:
  "(list_all isDot (trim expr) \<longrightarrow>
      evalTestExpression h c expr =
        (case firstOp (trim expr) of
           Some (l, op, r) \<Rightarrow> safeCompare h (getValueFromExpr h c l) (getValueFromExpr h c r) op
         | None \<Rightarrow> truthy (getValueFromExpr h c expr)))
   \<and> safeCompare h (VNum a) (VNum b) ''<'' = decLess a b
   \<and> safeCompare h (VNum a) (VNum b) ''>'' = decLess b a
   \<and> safeCompare h (VNum a) (VNum b) ''<='' = (\<not> decLess b a)
   \<and> safeCompare h (VNum a) (VNum b) ''>='' = (\<not> decLess a b)
   \<and> safeCompare h (VNum a) (VNum b) ''=='' = decEq a b
   \<and> safeCompare h (VNum a) (VNum b) ''!='' = (\<not> decEq a b)
   \<and> (\<not> (isNumber x \<and> isNumber y) \<longrightarrow>
        safeCompare h x y ''<'' = strLess (strOf h x) (strOf h y)
        \<and> safeCompare h x y ''>'' = strLess (strOf h y) (strOf h x)
        \<and> safeCompare h x y ''<='' = (\<not> strLess (strOf h y) (strOf h x))
        \<and> safeCompare h x y ''>='' = (\<not> strLess (strOf h x) (strOf h y))
        \<and> safeCompare h x y ''=='' = (strOf h x = strOf h y)
        \<and> safeCompare h x y ''!='' = (strOf h x \<noteq> strOf h y))
   \<and> truthy v = (v \<noteq> VUndefined \<and> v \<noteq> VNull \<and> v \<noteq> VBool False \<and> v \<noteq> VStr []
                  \<and> (\<forall>d. v = VNum d \<longrightarrow> \<not> decEq d (Dec 0 0)))
   \<and> truthy (VArr []) \<and> truthy (VObj [])"
proof (intro conjI impI)
  assume "list_all isDot (trim expr)"
  then show "evalTestExpression h c expr =
        (case firstOp (trim expr) of
           Some (l, op, r) \<Rightarrow> safeCompare h (getValueFromExpr h c l) (getValueFromExpr h c r) op
         | None \<Rightarrow> truthy (getValueFromExpr h c expr))"
    by (rule evalTestExpression_firstOp)
next
  show "truthy v = (v \<noteq> VUndefined \<and> v \<noteq> VNull \<and> v \<noteq> VBool False \<and> v \<noteq> VStr []
                  \<and> (\<forall>d. v = VNum d \<longrightarrow> \<not> decEq d (Dec 0 0)))"
    by (cases v) auto
qed (simp_all add: safeCompare_numbers safeCompare_strings)

theorem comparison_test_witness:
  "evalTestExpression noHost [''x'' \<mapsto> VNum (Dec 5 0)] '' x >= 10 '' = False
   \<and> evalTestExpression noHost [''x'' \<mapsto> VNum (Dec 5 0)] ''x'' = True
   \<and> evalTestExpression noHost Map.empty quotedOperatorTest =
       safeCompare noHost (getValueFromExpr noHost Map.empty [CHR 0x22, CHR ''a''])
         (getValueFromExpr noHost Map.empty (''b'' @ [CHR 0x22] @ '' == '' @ quotedOperand)) ''<''
   \<and> safeCompare noHost (VStr ''10'') (VNum (Dec 9 0)) ''<'' = True"
proof -
  let ?c = "[''x'' \<mapsto> VNum (Dec 5 0)]"
  have d1: "list_all isDot (trim '' x >= 10 '')" by code_simp
  have f1: "firstOp (trim '' x >= 10 '') = Some (''x '', ''>='', '' 10'')" by code_simp
  have v1: "safeCompare noHost (getValueFromExpr noHost ?c ''x '') (getValueFromExpr noHost ?c '' 10'')
      ''>='' = False" by code_simp
  have d2: "list_all isDot (trim ''x'')" by code_simp
  have f2: "firstOp (trim ''x'') = None" by code_simp
  have v2: "truthy (getValueFromExpr noHost ?c ''x'') = True" by code_simp
  have d3: "list_all isDot (trim quotedOperatorTest)" by code_simp
  have f3: "firstOp (trim quotedOperatorTest) =
      Some ([CHR 0x22, CHR ''a''], ''<'', ''b'' @ [CHR 0x22] @ '' == '' @ quotedOperand)"
    by code_simp
  have n4: "\<not> (isNumber (VStr ''10'') \<and> isNumber (VNum (Dec 9 0)))" by simp
  have v4: "strLess (strOf noHost (VStr ''10'')) (strOf noHost (VNum (Dec 9 0))) = True" by code_simp
  note t = comparison_test[where h = noHost]
  from t[where c = ?c and expr = "'' x >= 10 ''", THEN conjunct1] d1
  have 1: "evalTestExpression noHost ?c '' x >= 10 '' = False" by (simp add: f1 v1)
  from t[where c = ?c and expr = "''x''", THEN conjunct1] d2
  have 2: "evalTestExpression noHost ?c ''x'' = True" by (simp add: f2 v2)
  from t[where c = Map.empty and expr = quotedOperatorTest, THEN conjunct1] d3
  have 3: "evalTestExpression noHost Map.empty quotedOperatorTest =
       safeCompare noHost (getValueFromExpr noHost Map.empty [CHR 0x22, CHR ''a''])
         (getValueFromExpr noHost Map.empty (''b'' @ [CHR 0x22] @ '' == '' @ quotedOperand)) ''<''"
    by (simp add: f3)
  from t[where x = "VStr ''10''" and y = "VNum (Dec 9 0)",
      THEN conjunct2, THEN conjunct2, THEN conjunct2, THEN conjunct2, THEN conjunct2,
      THEN conjunct2, THEN conjunct2, THEN conjunct1] n4
  have 4: "safeCompare noHost (VStr ''10'') (VNum (Dec 9 0)) ''<'' = True" by (simp add: v4)
  from 1 2 3 4 show ?thesis by blast
qed

section \<open>Inheritance\<close>

definition baseTemplate :: string where
  "baseTemplate = ''<html>{% block body %}DEFAULT{% endblock %}</html>''"

definition childTemplate :: string where
  \<open>childTemplate = ''{% extends "base.html" %}{% block body %}CHILD{% endblock %}''\<close>

definition plainChildTemplate :: string where
  \<open>plainChildTemplate = ''{% extends "base.html" %}''\<close>

definition midTemplate :: string where
  \<open>midTemplate = ''{% extends "base.html" %}{% block body %}MID{% endblock %}''\<close>

definition leafTemplate :: string where
  \<open>leafTemplate = ''{% extends "mid.html" %}''\<close>

definition leafBlockTemplate :: string where
  \<open>leafBlockTemplate = ''{% extends "mid.html" %}{% block body %}LEAF{% endblock %}''\<close>

definition chainFiles :: files where
  "chainFiles = [''./templates/base.html'' \<mapsto> baseTemplate,
                 ''./templates/child.html'' \<mapsto> childTemplate,
                 ''./templates/plain.html'' \<mapsto> plainChildTemplate,
                 ''./templates/mid.html'' \<mapsto> midTemplate,
                 ''./templates/leaf.html'' \<mapsto> leafTemplate,
                 ''./templates/leafblock.html'' \<mapsto> leafBlockTemplate]"

text \<open>
  C3. A template that extends a base renders the base's nodes with the base's blocks
  replaced by its own: \<open>child.html\<close> gives \<open><html>CHILD</html>\<close>, and \<open>plain.html\<close>, which
  supplies no block, gives \<open><html>DEFAULT</html>\<close>; \<open>mid.html\<close> rendered on
  its own gives \<open><html>MID</html>\<close>. A chain of three does not compose that way. The blocks
  of the template in the middle are never added to the override map, and its block nodes
  are rendered where they stand, after the output of the root: \<open>leaf.html\<close>, which extends
  \<open>mid.html\<close> and supplies no block, gives \<open><html>DEFAULT</html>MID\<close> where the chain
  should give \<open><html>MID</html>\<close>, and \<open>leafblock.html\<close> gives \<open><html>LEAF</html>LEAF\<close>
  where it should give \<open><html>LEAF</html>\<close>.
\<close>

theorem inheritance_chain_divergence:
  "renderTemplate noHost chainFiles 8 ''child.html'' Map.empty = Inr ''<html>CHILD</html>''
   \<and> renderTemplate noHost chainFiles 8 ''plain.html'' Map.empty = Inr ''<html>DEFAULT</html>''
   \<and> renderTemplate noHost chainFiles 8 ''mid.html'' Map.empty = Inr ''<html>MID</html>''
   \<and> renderTemplate noHost chainFiles 8 ''leaf.html'' Map.empty = Inr ''<html>DEFAULT</html>MID''
   \<and> renderTemplate noHost chainFiles 8 ''leafblock.html'' Map.empty = Inr ''<html>LEAF</html>LEAF''"
proof (intro conjI)
  show "renderTemplate noHost chainFiles 8 ''child.html'' Map.empty = Inr ''<html>CHILD</html>''"
    by code_simp
  show "renderTemplate noHost chainFiles 8 ''plain.html'' Map.empty = Inr ''<html>DEFAULT</html>''"
    by code_simp
  show "renderTemplate noHost chainFiles 8 ''mid.html'' Map.empty = Inr ''<html>MID</html>''"
    by code_simp
  show "renderTemplate noHost chainFiles 8 ''leaf.html'' Map.empty = Inr ''<html>DEFAULT</html>MID''"
    by code_simp
  show "renderTemplate noHost chainFiles 8 ''leafblock.html'' Map.empty = Inr ''<html>LEAF</html>LEAF''"
    by code_simp
qed

end
